theory Spec2Isabelle
  imports Main "HOL-Library.Word" "HOL-Library.Multiset"
begin

section \<open>Data model\<close>

text \<open>
  The embedding follows \<^verbatim>\<open>src/shared-ptr.h\<close> and \<^verbatim>\<open>src/shared_ptr.cpp\<close>.
  Addresses are natural numbers and \<open>0\<close> is \<^verbatim>\<open>nullptr\<close>. The counters are
  \<^verbatim>\<open>size_t\<close>, taken as 64 bits wide, and \<^verbatim>\<open>int\<close> is taken as 32 bits wide
  (the LP64 data model); arithmetic on them wraps.
\<close>

type_synonym addr = nat
type_synonym size_t = "64 word"
type_synonym c_int = "32 word"
type_synonym deleter = nat
type_synonym var = nat

text \<open>
  The two classes derived from \<^verbatim>\<open>control_block\<close>: \<^verbatim>\<open>regular_control_block<T, D>\<close>
  stores the raw address \<^verbatim>\<open>ptr\<close> and the deleter \<^verbatim>\<open>D\<close>; \<^verbatim>\<open>inplace_control_block<T>\<close>
  embeds the object in \<^verbatim>\<open>obj\<close>.
\<close>

datatype block_kind = Regular_control_block addr deleter | Inplace_control_block

record control_block =
  counter :: size_t
  weak_counter :: size_t
  kind :: block_kind

record shared_ptr =
  block :: addr
  ptr :: addr

record weak_ptr =
  block_w :: addr
  ptr_w :: addr

text \<open>
  What the program does to the outside is recorded in a trace: every call of the virtual
  \<^verbatim>\<open>delete_object()\<close> on a block; every invocation of a deleter on an address, be it
  the deleter a constructor was given (\<open>Deleter_call d p\<close>) or the deleter stored in a
  block \<open>b\<close> (\<open>Block_deleter_call b d p\<close>); every run of the destructor of the object
  embedded in a block; and every \<^verbatim>\<open>delete this\<close> of a block.
\<close>

datatype event =
    Delete_object addr
  | Deleter_call deleter addr
  | Block_deleter_call addr deleter addr
  | Destructor_call addr
  | Delete_this addr

text \<open>
  The program state: the heap of live control blocks, the allocator's next fresh address,
  the trace, and the live \<^verbatim>\<open>shared_ptr\<close> and \<^verbatim>\<open>weak_ptr\<close> objects, each named by where
  it lives (a variable). Temporaries of the source are local values of the model.
\<close>

record state =
  heap :: "addr \<rightharpoonup> control_block"
  next_block :: addr
  trace :: "event list"
  strong :: "var \<rightharpoonup> shared_ptr"
  weak :: "var \<rightharpoonup> weak_ptr"

text \<open>
  A call either returns, or it has undefined behaviour (a null or dangling block is
  dereferenced, or an object that is not alive is used), or an exception leaves it, or
  \<^verbatim>\<open>std::terminate\<close> is called.
\<close>

datatype failure = Undefined | Throw state | Terminate state

type_synonym 'a result = "failure + 'a"

definition then_do :: "'a result \<Rightarrow> ('a \<Rightarrow> 'b result) \<Rightarrow> 'b result" where
  "then_do r f = (case r of Inl e \<Rightarrow> Inl e | Inr x \<Rightarrow> f x)"

text \<open>An exception that leaves a function declared \<^verbatim>\<open>noexcept\<close> calls \<^verbatim>\<open>std::terminate\<close>.\<close>

definition noexcept :: "'a result \<Rightarrow> 'a result" where
  "noexcept r = (case r of Inl (Throw s) \<Rightarrow> Inl (Terminate s) | _ \<Rightarrow> r)"

definition init :: state where
  "init = \<lparr>heap = Map.empty, next_block = 1, trace = [], strong = Map.empty, weak = Map.empty\<rparr>"

section \<open>The control block\<close>

text \<open>Dereferencing a block pointer: null and freed blocks have no object behind them.\<close>

definition load :: "addr \<Rightarrow> state \<Rightarrow> control_block option" where
  "load b s = (if b = 0 then None else heap s b)"

definition store :: "addr \<Rightarrow> control_block \<Rightarrow> state \<Rightarrow> state" where
  "store b cb s = s\<lparr>heap := (heap s)(b \<mapsto> cb)\<rparr>"

definition emit :: "event list \<Rightarrow> state \<Rightarrow> state" where
  "emit es s = s\<lparr>trace := trace s @ es\<rparr>"

text \<open>\<^verbatim>\<open>control_block() : counter(1), weak_counter(0) {}\<close>, behind \<^verbatim>\<open>new\<close>, which throws
  \<^verbatim>\<open>std::bad_alloc\<close> when the allocation fails (\<open>ok = False\<close>).\<close>

definition new_block :: "block_kind \<Rightarrow> bool \<Rightarrow> state \<Rightarrow> (addr \<times> state) result" where
  "new_block k ok s =
     (if \<not> ok then Inl (Throw s)
      else Inr (next_block s,
                s\<lparr>heap := (heap s)(next_block s \<mapsto> \<lparr>counter = 1, weak_counter = 0, kind = k\<rparr>),
                  next_block := Suc (next_block s)\<rparr>))"

text \<open>\<^verbatim>\<open>void control_block::inc_ref() { counter++; }\<close>\<close>

definition inc_ref :: "addr \<Rightarrow> state \<Rightarrow> state result" where
  "inc_ref this s =
     (case load this s of
        None \<Rightarrow> Inl Undefined
      | Some cb \<Rightarrow> Inr (store this (cb\<lparr>counter := counter cb + 1\<rparr>) s))"

text \<open>\<^verbatim>\<open>void control_block::inc_weak_ref() { weak_counter++; }\<close>\<close>

definition inc_weak_ref :: "addr \<Rightarrow> state \<Rightarrow> state result" where
  "inc_weak_ref this s =
     (case load this s of
        None \<Rightarrow> Inl Undefined
      | Some cb \<Rightarrow> Inr (store this (cb\<lparr>weak_counter := weak_counter cb + 1\<rparr>) s))"

text \<open>
  The deleter \<^verbatim>\<open>D\<close> and the destructor of \<^verbatim>\<open>T\<close> are code of the library's user. What
  they do is a parameter \<open>user\<close> of every function that can reach them: \<open>user e s\<close> is
  the outcome, in state \<open>s\<close>, of the call recorded as event \<open>e\<close>. \<open>quiet\<close> is user code
  that leaves the pointers and control blocks alone.
\<close>

type_synonym user_code = "event \<Rightarrow> state \<Rightarrow> state result"

definition quiet :: user_code where
  "quiet e s = Inr s"

definition call_user :: "user_code \<Rightarrow> event \<Rightarrow> state \<Rightarrow> state result" where
  "call_user user e s = user e (emit [e] s)"

text \<open>The virtual \<^verbatim>\<open>delete_object()\<close>: the regular block invokes its deleter on its
  stored address (\<^verbatim>\<open>static_cast<D&>(*this)(ptr)\<close>), the in-place block runs the destructor
  of its embedded object (\<^verbatim>\<open>reinterpret_cast<T*>(&obj)->~T()\<close>).\<close>

definition delete_object :: "user_code \<Rightarrow> addr \<Rightarrow> state \<Rightarrow> state result" where
  "delete_object user this s =
     (case load this s of
        None \<Rightarrow> Inl Undefined
      | Some cb \<Rightarrow>
          (case kind cb of
             Regular_control_block p d \<Rightarrow>
               call_user user (Block_deleter_call this d p) (emit [Delete_object this] s)
           | Inplace_control_block \<Rightarrow>
               call_user user (Destructor_call this) (emit [Delete_object this] s)))"

text \<open>\<^verbatim>\<open>delete this\<close>: the block leaves the heap.\<close>

definition delete_this :: "addr \<Rightarrow> state \<Rightarrow> state result" where
  "delete_this this s =
     (case load this s of
        None \<Rightarrow> Inl Undefined
      | Some cb \<Rightarrow> Inr (emit [Delete_this this] (s\<lparr>heap := (heap s)(this := None)\<rparr>)))"

text \<open>
  \<^verbatim>\<open>
  void control_block::dec_ref() {
      if (--counter == 0) { delete_object(); }
      if (weak_counter == 0 && counter == 0) { delete this; }
  }
  \<close>
\<close>

definition dec_ref :: "user_code \<Rightarrow> addr \<Rightarrow> state \<Rightarrow> state result" where
  "dec_ref user this s =
     (case load this s of
        None \<Rightarrow> Inl Undefined
      | Some cb \<Rightarrow>
          let s1 = store this (cb\<lparr>counter := counter cb - 1\<rparr>) s in
          then_do (if counter cb - 1 = 0 then delete_object user this s1 else Inr s1) (\<lambda>s2.
            case load this s2 of
              None \<Rightarrow> Inl Undefined
            | Some cb2 \<Rightarrow>
                if weak_counter cb2 = 0 \<and> counter cb2 = 0 then delete_this this s2 else Inr s2))"

text \<open>
  \<^verbatim>\<open>
  void control_block::dec_weak_ref() {
      if (--weak_counter == 0 && counter == 0) { delete this; }
  }
  \<close>
\<close>

definition dec_weak_ref :: "addr \<Rightarrow> state \<Rightarrow> state result" where
  "dec_weak_ref this s =
     (case load this s of
        None \<Rightarrow> Inl Undefined
      | Some cb \<Rightarrow>
          let s1 = store this (cb\<lparr>weak_counter := weak_counter cb - 1\<rparr>) s in
          if weak_counter cb - 1 = 0 \<and> counter cb = 0 then delete_this this s1 else Inr s1)"

text \<open>\<^verbatim>\<open>int control_block::get_strong_count() { return counter; }\<close>: the \<^verbatim>\<open>size_t\<close>
  counter is narrowed to \<^verbatim>\<open>int\<close>.\<close>

definition get_strong_count :: "addr \<Rightarrow> state \<Rightarrow> c_int result" where
  "get_strong_count this s =
     (case load this s of None \<Rightarrow> Inl Undefined | Some cb \<Rightarrow> Inr (ucast (counter cb)))"

text \<open>\<^verbatim>\<open>bool control_block::object_deleted() const noexcept { return (counter == 0); }\<close>\<close>

definition object_deleted :: "addr \<Rightarrow> state \<Rightarrow> bool result" where
  "object_deleted this s =
     (case load this s of None \<Rightarrow> Inl Undefined | Some cb \<Rightarrow> Inr (counter cb = 0))"

text \<open>\<^verbatim>\<open>inplace_control_block::get()\<close>: the address of the embedded object, which this
  model identifies with the address of its block.\<close>

definition inplace_get :: "addr \<Rightarrow> addr" where
  "inplace_get this = this"

section \<open>The strong pointer\<close>

text \<open>\<^verbatim>\<open>shared_ptr() noexcept {}\<close> and \<^verbatim>\<open>shared_ptr(std::nullptr_t) noexcept {}\<close>, with the
  member initialisers \<^verbatim>\<open>block = nullptr\<close>, \<^verbatim>\<open>ptr = nullptr\<close>.\<close>

definition shared_ptr_default :: shared_ptr where
  "shared_ptr_default = \<lparr>block = 0, ptr = 0\<rparr>"

text \<open>
  The conversion of an object pointer to a pointer to a base class that lies at offset
  \<open>off\<close> in the object, written \<^verbatim>\<open>static_cast<Y*>(ptr)\<close> or left implicit: null stays null.
\<close>

definition static_cast :: "nat \<Rightarrow> addr \<Rightarrow> addr" where
  "static_cast off p = (if p = 0 then 0 else p + off)"

text \<open>
  \<^verbatim>\<open>
  explicit shared_ptr(Y* ptr_, D&& deleter = D()) noexcept {
      try {
          block = new regular_control_block<Y, D>(ptr_, std::forward<D>(deleter));
          ptr = ptr_;
      } catch (...) {
          deleter.operator()(ptr_);
          throw;
      }
  }
  \<close>
  The block and the deleter receive the \<^verbatim>\<open>Y*\<close> as it is; the assignment
  \<^verbatim>\<open>ptr = ptr_\<close> converts it to \<^verbatim>\<open>T*\<close>, a base of \<^verbatim>\<open>Y\<close> at offset \<open>off\<close>.
\<close>

definition shared_ptr_raw ::
  "user_code \<Rightarrow> nat \<Rightarrow> addr \<Rightarrow> deleter \<Rightarrow> bool \<Rightarrow> state \<Rightarrow> (shared_ptr \<times> state) result" where
  "shared_ptr_raw user off ptr0 d ok s =
     noexcept
       (case new_block (Regular_control_block ptr0 d) ok s of
          Inr (b, s') \<Rightarrow> Inr (\<lparr>block = b, ptr = static_cast off ptr0\<rparr>, s')
        | Inl (Throw s') \<Rightarrow>
            then_do (call_user user (Deleter_call d ptr0) s') (\<lambda>s''. Inl (Throw s''))
        | Inl f \<Rightarrow> Inl f)"

text \<open>
  \<^verbatim>\<open>
  shared_ptr(const shared_ptr<Y> &r, T* ptr_) noexcept : block(r.block), ptr(ptr_) {
      block->inc_ref();
  }
  \<close>
\<close>

definition shared_ptr_alias :: "shared_ptr \<Rightarrow> addr \<Rightarrow> state \<Rightarrow> (shared_ptr \<times> state) result" where
  "shared_ptr_alias r ptr0 s =
     (let this = \<lparr>block = block r, ptr = ptr0\<rparr>
      in then_do (inc_ref (block this) s) (\<lambda>s'. Inr (this, s')))"

text \<open>
  \<^verbatim>\<open>
  shared_ptr(const shared_ptr& other) noexcept : block(other.block), ptr(other.ptr) {
      if (block) { block->inc_ref(); }
  }
  \<close>
\<close>

definition shared_ptr_copy :: "shared_ptr \<Rightarrow> state \<Rightarrow> (shared_ptr \<times> state) result" where
  "shared_ptr_copy other s =
     (let this = \<lparr>block = block other, ptr = ptr other\<rparr>
      in if block this \<noteq> 0 then then_do (inc_ref (block this) s) (\<lambda>s'. Inr (this, s'))
         else Inr (this, s))"

text \<open>
  \<^verbatim>\<open>
  shared_ptr(shared_ptr&& other) noexcept : block(other.block), ptr(other.ptr) {
      other.block = nullptr;
      other.ptr = nullptr;
  }
  \<close>
  The source object is a variable, which the constructor overwrites.
\<close>

definition shared_ptr_move :: "var \<Rightarrow> state \<Rightarrow> (shared_ptr \<times> state) result" where
  "shared_ptr_move other s =
     (case strong s other of
        None \<Rightarrow> Inl Undefined
      | Some x \<Rightarrow>
          Inr (\<lparr>block = block x, ptr = ptr x\<rparr>,
               s\<lparr>strong := (strong s)(other \<mapsto> \<lparr>block = 0, ptr = 0\<rparr>)\<rparr>))"

text \<open>\<^verbatim>\<open>~shared_ptr() { if (block) { block->dec_ref(); } }\<close>\<close>

definition shared_ptr_dtor :: "user_code \<Rightarrow> shared_ptr \<Rightarrow> state \<Rightarrow> state result" where
  "shared_ptr_dtor user this s =
     (if block this \<noteq> 0 then dec_ref user (block this) s else Inr s)"

text \<open>
  \<^verbatim>\<open>swap\<close> exchanges both fields. \<open>swap_into\<close> is \<^verbatim>\<open>tmp.swap(*this)\<close> for a temporary
  \<open>tmp\<close> and a variable: it returns what the temporary holds afterwards.
  \<open>shared_ptr_swap\<close> is the same member called on two variables.
\<close>

definition swap_into :: "shared_ptr \<Rightarrow> var \<Rightarrow> state \<Rightarrow> (shared_ptr \<times> state) result" where
  "swap_into tmp this s =
     (case strong s this of
        None \<Rightarrow> Inl Undefined
      | Some t \<Rightarrow> Inr (t, s\<lparr>strong := (strong s)(this \<mapsto> tmp)\<rparr>))"

definition shared_ptr_swap :: "var \<Rightarrow> var \<Rightarrow> state \<Rightarrow> state result" where
  "shared_ptr_swap this other s =
     (case (strong s this, strong s other) of
        (Some t, Some x) \<Rightarrow> Inr (s\<lparr>strong := (strong s)(this \<mapsto> x, other \<mapsto> t)\<rparr>)
      | _ \<Rightarrow> Inl Undefined)"

text \<open>
  \<^verbatim>\<open>
  shared_ptr& operator=(const shared_ptr& other) noexcept {
      if (this == &other) { return *this; }
      shared_ptr<T>(other).swap(*this);
      return *this;
  }
  \<close>
\<close>

definition shared_ptr_copy_assign :: "user_code \<Rightarrow> var \<Rightarrow> var \<Rightarrow> state \<Rightarrow> state result" where
  "shared_ptr_copy_assign user this other s =
     (if this = other then Inr s
      else case strong s other of
             None \<Rightarrow> Inl Undefined
           | Some x \<Rightarrow>
               then_do (shared_ptr_copy x s) (\<lambda>(tmp, s1).
               then_do (swap_into tmp this s1) (\<lambda>(tmp', s2).
               shared_ptr_dtor user tmp' s2)))"

text \<open>
  \<^verbatim>\<open>
  shared_ptr& operator=(shared_ptr&& other) noexcept {
      shared_ptr<T>(std::move(other)).swap(*this);
      return *this;
  }
  \<close>
\<close>

definition shared_ptr_move_assign :: "user_code \<Rightarrow> var \<Rightarrow> var \<Rightarrow> state \<Rightarrow> state result" where
  "shared_ptr_move_assign user this other s =
     then_do (shared_ptr_move other s) (\<lambda>(tmp, s1).
     then_do (swap_into tmp this s1) (\<lambda>(tmp', s2).
     shared_ptr_dtor user tmp' s2))"

text \<open>
  \<^verbatim>\<open>
  operator shared_ptr<Y>() noexcept {
      auto result = shared_ptr<Y>(block, static_cast<Y*>(ptr));
      block->inc_ref();
      return result;
  }
  \<close>
  with the private \<^verbatim>\<open>shared_ptr(control_block *other_block, T* ptr_)\<close>, which only
  stores its two arguments.
\<close>

definition shared_ptr_convert :: "nat \<Rightarrow> shared_ptr \<Rightarrow> state \<Rightarrow> (shared_ptr \<times> state) result" where
  "shared_ptr_convert off this s =
     (let result = \<lparr>block = block this, ptr = static_cast off (ptr this)\<rparr>
      in then_do (inc_ref (block this) s) (\<lambda>s'. Inr (result, s')))"

text \<open>\<^verbatim>\<open>T* get() const noexcept { return ptr; }\<close>\<close>

definition get :: "shared_ptr \<Rightarrow> addr" where
  "get this = ptr this"

text \<open>\<^verbatim>\<open>operator bool() const noexcept { return (get() != nullptr); }\<close>\<close>

definition to_bool :: "shared_ptr \<Rightarrow> bool" where
  "to_bool this = (get this \<noteq> 0)"

text \<open>
  \<^verbatim>\<open>
  std::size_t use_count() const noexcept {
      return (block == nullptr ? 0 : block->get_strong_count());
  }
  \<close>
  The conditional has type \<^verbatim>\<open>int\<close>; the return converts it to \<^verbatim>\<open>std::size_t\<close>, which
  extends the sign.
\<close>

definition use_count :: "shared_ptr \<Rightarrow> state \<Rightarrow> size_t result" where
  "use_count this s =
     (if block this = 0 then Inr (scast (0 :: c_int))
      else then_do (get_strong_count (block this) s) (\<lambda>n. Inr (scast n)))"

text \<open>\<^verbatim>\<open>void reset() noexcept { shared_ptr<T>().swap(*this); }\<close>\<close>

definition shared_ptr_reset :: "user_code \<Rightarrow> var \<Rightarrow> state \<Rightarrow> state result" where
  "shared_ptr_reset user this s =
     then_do (swap_into shared_ptr_default this s) (\<lambda>(tmp', s1). shared_ptr_dtor user tmp' s1)"

text \<open>
  \<^verbatim>\<open>
  void reset(X* new_ptr, D&& deleter = D()) noexcept {
      shared_ptr<T>(new_ptr, std::forward<D>(deleter)).swap(*this);
  }
  \<close>
\<close>

definition shared_ptr_reset_raw ::
  "user_code \<Rightarrow> var \<Rightarrow> nat \<Rightarrow> addr \<Rightarrow> deleter \<Rightarrow> bool \<Rightarrow> state \<Rightarrow> state result" where
  "shared_ptr_reset_raw user this off new_ptr d ok s =
     noexcept
       (then_do (shared_ptr_raw user off new_ptr d ok s) (\<lambda>(tmp, s1).
        then_do (swap_into tmp this s1) (\<lambda>(tmp', s2).
        shared_ptr_dtor user tmp' s2)))"

text \<open>
  \<^verbatim>\<open>
  shared_ptr<T> make_shared(Args&&... args) {
      return shared_ptr<T>(new inplace_control_block<T>(std::forward<Args>(args)...));
  }
  \<close>
  with the private \<^verbatim>\<open>shared_ptr(inplace_control_block<T> *other_block)
  : block(other_block), ptr(other_block->get())\<close>.
\<close>

definition make_shared :: "bool \<Rightarrow> state \<Rightarrow> (shared_ptr \<times> state) result" where
  "make_shared ok s =
     then_do (new_block Inplace_control_block ok s) (\<lambda>(b, s').
       Inr (\<lparr>block = b, ptr = inplace_get b\<rparr>, s'))"

text \<open>The comparison operators of lines 217 to 245.\<close>

definition eq :: "shared_ptr \<Rightarrow> shared_ptr \<Rightarrow> bool" where
  "eq a b = (get a = get b)"

definition neq :: "shared_ptr \<Rightarrow> shared_ptr \<Rightarrow> bool" where
  "neq a b = (get a \<noteq> get b)"

definition nullptr_eq :: "shared_ptr \<Rightarrow> bool" where
  "nullptr_eq b = (get b = 0)"

definition eq_nullptr :: "shared_ptr \<Rightarrow> bool" where
  "eq_nullptr a = (get a = 0)"

definition nullptr_neq :: "shared_ptr \<Rightarrow> bool" where
  "nullptr_neq b = (get b \<noteq> 0)"

definition neq_nullptr :: "shared_ptr \<Rightarrow> bool" where
  "neq_nullptr a = (get a \<noteq> 0)"

section \<open>The weak pointer\<close>

text \<open>\<^verbatim>\<open>weak_ptr() noexcept {}\<close>\<close>

definition weak_ptr_default :: weak_ptr where
  "weak_ptr_default = \<lparr>block_w = 0, ptr_w = 0\<rparr>"

text \<open>
  \<^verbatim>\<open>
  weak_ptr(const weak_ptr<T> &other) noexcept : block(other.block), ptr(other.ptr) {
      if (block) { block->inc_weak_ref(); }
  }
  \<close>
\<close>

definition weak_ptr_copy :: "weak_ptr \<Rightarrow> state \<Rightarrow> (weak_ptr \<times> state) result" where
  "weak_ptr_copy other s =
     (let this = \<lparr>block_w = block_w other, ptr_w = ptr_w other\<rparr>
      in if block_w this \<noteq> 0 then then_do (inc_weak_ref (block_w this) s) (\<lambda>s'. Inr (this, s'))
         else Inr (this, s))"

text \<open>
  \<^verbatim>\<open>
  weak_ptr(const shared_ptr<T>& other) noexcept : block(other.block), ptr(other.ptr) {
      if (block) { block->inc_weak_ref(); }
  }
  \<close>
\<close>

definition weak_ptr_from_shared :: "shared_ptr \<Rightarrow> state \<Rightarrow> (weak_ptr \<times> state) result" where
  "weak_ptr_from_shared other s =
     (let this = \<lparr>block_w = block other, ptr_w = ptr other\<rparr>
      in if block_w this \<noteq> 0 then then_do (inc_weak_ref (block_w this) s) (\<lambda>s'. Inr (this, s'))
         else Inr (this, s))"

text \<open>
  \<^verbatim>\<open>
  weak_ptr(weak_ptr<T> &&other) noexcept : block(other.block), ptr(other.ptr) {
      other.block = nullptr;
      other.ptr = nullptr;
  }
  \<close>
\<close>

definition weak_ptr_move :: "var \<Rightarrow> state \<Rightarrow> (weak_ptr \<times> state) result" where
  "weak_ptr_move other s =
     (case weak s other of
        None \<Rightarrow> Inl Undefined
      | Some x \<Rightarrow>
          Inr (\<lparr>block_w = block_w x, ptr_w = ptr_w x\<rparr>,
               s\<lparr>weak := (weak s)(other \<mapsto> \<lparr>block_w = 0, ptr_w = 0\<rparr>)\<rparr>))"

text \<open>\<^verbatim>\<open>~weak_ptr() { if (block) { block->dec_weak_ref(); } }\<close>\<close>

definition weak_ptr_dtor :: "weak_ptr \<Rightarrow> state \<Rightarrow> state result" where
  "weak_ptr_dtor this s = (if block_w this \<noteq> 0 then dec_weak_ref (block_w this) s else Inr s)"

text \<open>\<^verbatim>\<open>weak_ptr::swap\<close>, between a temporary and a variable and between two variables.\<close>

definition swap_into_w :: "weak_ptr \<Rightarrow> var \<Rightarrow> state \<Rightarrow> (weak_ptr \<times> state) result" where
  "swap_into_w tmp this s =
     (case weak s this of
        None \<Rightarrow> Inl Undefined
      | Some t \<Rightarrow> Inr (t, s\<lparr>weak := (weak s)(this \<mapsto> tmp)\<rparr>))"

definition weak_ptr_swap :: "var \<Rightarrow> var \<Rightarrow> state \<Rightarrow> state result" where
  "weak_ptr_swap this other s =
     (case (weak s this, weak s other) of
        (Some t, Some x) \<Rightarrow> Inr (s\<lparr>weak := (weak s)(this \<mapsto> x, other \<mapsto> t)\<rparr>)
      | _ \<Rightarrow> Inl Undefined)"

text \<open>
  \<^verbatim>\<open>
  weak_ptr& operator=(const weak_ptr<T> &other) noexcept {
      if (&other == this) { return *this; }
      weak_ptr<T> tmp(other);
      swap(tmp);
      return *this;
  }
  \<close>
\<close>

definition weak_ptr_copy_assign :: "var \<Rightarrow> var \<Rightarrow> state \<Rightarrow> state result" where
  "weak_ptr_copy_assign this other s =
     (if other = this then Inr s
      else case weak s other of
             None \<Rightarrow> Inl Undefined
           | Some x \<Rightarrow>
               then_do (weak_ptr_copy x s) (\<lambda>(tmp, s1).
               then_do (swap_into_w tmp this s1) (\<lambda>(tmp', s2).
               weak_ptr_dtor tmp' s2)))"

text \<open>
  \<^verbatim>\<open>
  weak_ptr& operator=(weak_ptr<T> &&other) noexcept {
      weak_ptr<T>(std::move(other)).swap(*this);
      return *this;
  }
  \<close>
\<close>

definition weak_ptr_move_assign :: "var \<Rightarrow> var \<Rightarrow> state \<Rightarrow> state result" where
  "weak_ptr_move_assign this other s =
     then_do (weak_ptr_move other s) (\<lambda>(tmp, s1).
     then_do (swap_into_w tmp this s1) (\<lambda>(tmp', s2).
     weak_ptr_dtor tmp' s2))"

text \<open>
  \<^verbatim>\<open>
  weak_ptr& operator=(const shared_ptr<T>& other) noexcept {
      weak_ptr<T> tmp(other);
      swap(tmp);
      return *this;
  }
  \<close>
\<close>

definition weak_ptr_assign_shared :: "var \<Rightarrow> var \<Rightarrow> state \<Rightarrow> state result" where
  "weak_ptr_assign_shared this other s =
     (case strong s other of
        None \<Rightarrow> Inl Undefined
      | Some x \<Rightarrow>
          then_do (weak_ptr_from_shared x s) (\<lambda>(tmp, s1).
          then_do (swap_into_w tmp this s1) (\<lambda>(tmp', s2).
          weak_ptr_dtor tmp' s2)))"

text \<open>
  \<^verbatim>\<open>
  shared_ptr<T> lock() const noexcept {
      if (block == nullptr || block->object_deleted()) { return shared_ptr<T>(); }
      block->inc_ref();
      return shared_ptr<T>(block, ptr);
  }
  \<close>
\<close>

definition lock :: "weak_ptr \<Rightarrow> state \<Rightarrow> (shared_ptr \<times> state) result" where
  "lock this s =
     (if block_w this = 0 then Inr (shared_ptr_default, s)
      else then_do (object_deleted (block_w this) s) (\<lambda>deleted.
             if deleted then Inr (shared_ptr_default, s)
             else then_do (inc_ref (block_w this) s) (\<lambda>s'.
                    Inr (\<lparr>block = block_w this, ptr = ptr_w this\<rparr>, s'))))"

section \<open>Programs over the two pointer types\<close>

text \<open>
  A program is a list of statements over named pointer variables. A declaration
  constructs a new variable, a destructor call ends one; using a variable that is not
  alive, or declaring one that is, is undefined.
\<close>

datatype op =
    Default_ctor var
  | Raw_ctor var nat addr deleter bool
  | Make_shared var bool
  | Alias_ctor var var addr
  | Copy_ctor var var
  | Move_ctor var var
  | Convert var var nat
  | Copy_assign var var
  | Move_assign var var
  | Swap var var
  | Reset var
  | Reset_raw var nat addr deleter bool
  | Dtor var
  | Weak_default var
  | Weak_copy var var
  | Weak_move var var
  | Weak_from_shared var var
  | Weak_copy_assign var var
  | Weak_move_assign var var
  | Weak_assign_shared var var
  | Weak_swap var var
  | Lock var var
  | Weak_dtor var

definition declare_strong :: "var \<Rightarrow> (shared_ptr \<times> state) result \<Rightarrow> state result" where
  "declare_strong v r =
     then_do r (\<lambda>(p, s).
       if strong s v = None then Inr (s\<lparr>strong := (strong s)(v \<mapsto> p)\<rparr>) else Inl Undefined)"

definition declare_weak :: "var \<Rightarrow> (weak_ptr \<times> state) result \<Rightarrow> state result" where
  "declare_weak v r =
     then_do r (\<lambda>(p, s).
       if weak s v = None then Inr (s\<lparr>weak := (weak s)(v \<mapsto> p)\<rparr>) else Inl Undefined)"

definition with_strong :: "var \<Rightarrow> state \<Rightarrow> (shared_ptr \<Rightarrow> 'a result) \<Rightarrow> 'a result" where
  "with_strong v s f = (case strong s v of None \<Rightarrow> Inl Undefined | Some p \<Rightarrow> f p)"

definition with_weak :: "var \<Rightarrow> state \<Rightarrow> (weak_ptr \<Rightarrow> 'a result) \<Rightarrow> 'a result" where
  "with_weak v s f = (case weak s v of None \<Rightarrow> Inl Undefined | Some p \<Rightarrow> f p)"

fun step :: "user_code \<Rightarrow> op \<Rightarrow> state \<Rightarrow> state result" where
  "step user (Default_ctor v) s = declare_strong v (Inr (shared_ptr_default, s))"
| "step user (Raw_ctor v off p d ok) s = declare_strong v (shared_ptr_raw user off p d ok s)"
| "step user (Make_shared v ok) s = declare_strong v (make_shared ok s)"
| "step user (Alias_ctor v r p) s = declare_strong v (with_strong r s (\<lambda>x. shared_ptr_alias x p s))"
| "step user (Copy_ctor v other) s = declare_strong v (with_strong other s (\<lambda>x. shared_ptr_copy x s))"
| "step user (Move_ctor v other) s = declare_strong v (shared_ptr_move other s)"
| "step user (Convert v src off) s =
     declare_strong v (with_strong src s (\<lambda>x. shared_ptr_convert off x s))"
| "step user (Copy_assign v other) s = shared_ptr_copy_assign user v other s"
| "step user (Move_assign v other) s = shared_ptr_move_assign user v other s"
| "step user (Swap v other) s = shared_ptr_swap v other s"
| "step user (Reset v) s = shared_ptr_reset user v s"
| "step user (Reset_raw v off p d ok) s = shared_ptr_reset_raw user v off p d ok s"
| "step user (Dtor v) s =
     with_strong v s (\<lambda>x. then_do (shared_ptr_dtor user x s) (\<lambda>s'.
       Inr (s'\<lparr>strong := (strong s')(v := None)\<rparr>)))"
| "step user (Weak_default v) s = declare_weak v (Inr (weak_ptr_default, s))"
| "step user (Weak_copy v other) s = declare_weak v (with_weak other s (\<lambda>x. weak_ptr_copy x s))"
| "step user (Weak_move v other) s = declare_weak v (weak_ptr_move other s)"
| "step user (Weak_from_shared v other) s =
     declare_weak v (with_strong other s (\<lambda>x. weak_ptr_from_shared x s))"
| "step user (Weak_copy_assign v other) s = weak_ptr_copy_assign v other s"
| "step user (Weak_move_assign v other) s = weak_ptr_move_assign v other s"
| "step user (Weak_assign_shared v other) s = weak_ptr_assign_shared v other s"
| "step user (Weak_swap v other) s = weak_ptr_swap v other s"
| "step user (Lock v w) s = declare_strong v (with_weak w s (\<lambda>x. lock x s))"
| "step user (Weak_dtor v) s =
     with_weak v s (\<lambda>x. then_do (weak_ptr_dtor x s) (\<lambda>s'.
       Inr (s'\<lparr>weak := (weak s')(v := None)\<rparr>)))"

fun run :: "user_code \<Rightarrow> state \<Rightarrow> op list \<Rightarrow> state result" where
  "run user s [] = Inr s"
| "run user s (x # xs) = then_do (step user x s) (\<lambda>s'. run user s' xs)"

section \<open>Programs over one control block\<close>

text \<open>
  The four counter operations are private to \<^verbatim>\<open>control_block\<close>; the two pointer types
  are their callers. A sequence of such calls on the block at address \<open>b\<close>:
\<close>

datatype block_op = Inc_ref | Dec_ref | Inc_weak_ref | Dec_weak_ref

fun block_step :: "user_code \<Rightarrow> addr \<Rightarrow> block_op \<Rightarrow> state \<Rightarrow> state result" where
  "block_step user b Inc_ref s = inc_ref b s"
| "block_step user b Dec_ref s = dec_ref user b s"
| "block_step user b Inc_weak_ref s = inc_weak_ref b s"
| "block_step user b Dec_weak_ref s = dec_weak_ref b s"

fun block_run :: "user_code \<Rightarrow> addr \<Rightarrow> state \<Rightarrow> block_op list \<Rightarrow> state result" where
  "block_run user b s [] = Inr s"
| "block_run user b s (x # xs) = then_do (block_step user b x s) (\<lambda>s'. block_run user b s' xs)"

text \<open>
  \<open>retains_guarded user b s xs\<close>: in the run of \<open>xs\<close> from \<open>s\<close>, every \<^verbatim>\<open>inc_ref\<close> is
  called on a block for which \<^verbatim>\<open>object_deleted()\<close> is false, the test that
  \<^verbatim>\<open>weak_ptr::lock\<close> makes before its own \<^verbatim>\<open>inc_ref\<close>.
\<close>

fun retains_guarded :: "user_code \<Rightarrow> addr \<Rightarrow> state \<Rightarrow> block_op list \<Rightarrow> bool" where
  "retains_guarded user b s [] = True"
| "retains_guarded user b s (x # xs) =
     ((x = Inc_ref \<longrightarrow> object_deleted b s = Inr False) \<and>
      (case block_step user b x s of
         Inl f \<Rightarrow> True
       | Inr s' \<Rightarrow> retains_guarded user b s' xs))"

section \<open>Ownership accounting\<close>

text \<open>
  The notions the properties are stated with. \<open>refs blk m b\<close> is the set of variables
  of a pointer store whose pointer holds block \<open>b\<close>; \<open>holders\<close> adds the temporaries
  that hold \<open>b\<close> while a statement is under way, given as a multiset of block addresses.
\<close>

definition refs :: "('p \<Rightarrow> addr) \<Rightarrow> (var \<rightharpoonup> 'p) \<Rightarrow> addr \<Rightarrow> var set" where
  "refs blk m b = {v. \<exists>p. m v = Some p \<and> blk p = b}"

definition holders :: "('p \<Rightarrow> addr) \<Rightarrow> addr multiset \<Rightarrow> (var \<rightharpoonup> 'p) \<Rightarrow> addr \<Rightarrow> nat" where
  "holders blk T m b = card (refs blk m b) + count T b"

text \<open>
  The events that destroy the payload of block \<open>b\<close>: an invocation of the deleter stored
  in \<open>b\<close>, and a run of the destructor of the object embedded in \<open>b\<close>. \<open>destroyed tr b\<close>
  is how often the payload of \<open>b\<close> was destroyed according to the trace, and
  \<open>reclaimed tr b\<close> how often the block itself was freed.
\<close>

fun destruction_of :: "addr \<Rightarrow> event \<Rightarrow> bool" where
  "destruction_of b (Block_deleter_call c d p) = (c = b)"
| "destruction_of b (Destructor_call c) = (c = b)"
| "destruction_of b (Delete_object c) = False"
| "destruction_of b (Deleter_call d p) = False"
| "destruction_of b (Delete_this c) = False"

definition destroyed :: "event list \<Rightarrow> addr \<Rightarrow> nat" where
  "destroyed tr b = length (filter (destruction_of b) tr)"

definition reclaimed :: "event list \<Rightarrow> addr \<Rightarrow> nat" where
  "reclaimed tr b = count_list tr (Delete_this b)"

text \<open>
  User code that leaves block \<open>b\<close> alone: whenever it is called it returns, and it has
  neither changed the block nor destroyed its payload.
\<close>

definition leaves_block :: "user_code \<Rightarrow> addr \<Rightarrow> bool" where
  "leaves_block user b \<longleftrightarrow>
     (\<forall>e s. \<exists>s'. user e s = Inr s' \<and> heap s' b = heap s b \<and>
                    destroyed (trace s') b = destroyed (trace s) b)"

text \<open>The event by which \<^verbatim>\<open>delete_object()\<close> of a block destroys its payload.\<close>

definition payload_event :: "addr \<Rightarrow> control_block \<Rightarrow> event" where
  "payload_event b cb =
     (case kind cb of Regular_control_block p d \<Rightarrow> Block_deleter_call b d p
                    | Inplace_control_block \<Rightarrow> Destructor_call b)"

text \<open>The addresses the allocator has handed out so far.\<close>

definition allocated :: "state \<Rightarrow> addr \<Rightarrow> bool" where
  "allocated s b \<longleftrightarrow> 0 < b \<and> b < next_block s"

text \<open>
  The state of one block address \<open>b\<close>, for \<open>sc\<close> strong and \<open>wc\<close> weak holders. A live
  block was allocated, its counters are the numbers of holders, somebody holds it, its
  payload was destroyed exactly if no strong holder is left, and it was never freed.
  An address without a live block has no holders; if it was allocated, its payload was
  destroyed once and the block freed once; otherwise nothing ever happened to it.
\<close>

definition block_ok :: "nat \<Rightarrow> nat \<Rightarrow> state \<Rightarrow> addr \<Rightarrow> bool" where
  "block_ok sc wc s b \<longleftrightarrow>
     (\<forall>cb. heap s b = Some cb \<longrightarrow>
        allocated s b \<and> unat (counter cb) = sc \<and> unat (weak_counter cb) = wc \<and>
        0 < sc + wc \<and> (sc = 0 \<longrightarrow> destroyed (trace s) b = 1) \<and>
        (0 < sc \<longrightarrow> destroyed (trace s) b = 0) \<and> reclaimed (trace s) b = 0) \<and>
     (heap s b = None \<longrightarrow>
        (0 < b \<longrightarrow> sc = 0 \<and> wc = 0) \<and>
        (allocated s b \<longrightarrow> destroyed (trace s) b = 1 \<and> reclaimed (trace s) b = 1) \<and>
        (\<not> allocated s b \<longrightarrow> destroyed (trace s) b = 0 \<and> reclaimed (trace s) b = 0))"

text \<open>
  \<open>accounted N T W st wk s\<close>: the heap and trace of \<open>s\<close> fit the strong pointers
  \<open>st\<close>, the weak pointers \<open>wk\<close> and the temporaries \<open>T\<close> and \<open>W\<close>, and there are at
  most \<open>N\<close> pointer objects in all. \<open>consistent N s\<close> is the same for the pointer
  variables of \<open>s\<close> itself, between two statements, when no temporary is alive.
\<close>

definition accounted ::
  "nat \<Rightarrow> addr multiset \<Rightarrow> addr multiset \<Rightarrow> (var \<rightharpoonup> shared_ptr) \<Rightarrow> (var \<rightharpoonup> weak_ptr) \<Rightarrow> state \<Rightarrow> bool" where
  "accounted N T W st wk s \<longleftrightarrow>
     finite (dom st) \<and> finite (dom wk) \<and>
     card (dom st) + size T + card (dom wk) + size W \<le> N \<and> 0 < next_block s \<and>
     (\<forall>b. block_ok (holders block T st b) (holders block_w W wk b) s b)"

definition consistent_with :: "nat \<Rightarrow> addr multiset \<Rightarrow> addr multiset \<Rightarrow> state \<Rightarrow> bool" where
  "consistent_with N T W s = accounted N T W (strong s) (weak s) s"

definition consistent :: "nat \<Rightarrow> state \<Rightarrow> bool" where
  "consistent N s = consistent_with N {#} {#} s"

text \<open>\<open>extends s s'\<close>: the trace of \<open>s'\<close> continues the trace of \<open>s\<close>, and every
  address allocated in \<open>s\<close> is allocated in \<open>s'\<close>.\<close>

definition extends :: "state \<Rightarrow> state \<Rightarrow> bool" where
  "extends s s' \<longleftrightarrow> (\<exists>es. trace s' = trace s @ es) \<and> next_block s \<le> next_block s'"

text \<open>In a strong pointer without a block the address is null as well.\<close>

definition null_together :: "state \<Rightarrow> bool" where
  "null_together s \<longleftrightarrow> (\<forall>v y. strong s v = Some y \<longrightarrow> block y = 0 \<longrightarrow> ptr y = 0)"

text \<open>
  User code for an object that has a weak pointer as a member: the destructor of the
  object embedded in block \<open>b\<close> destroys the weak pointer variable \<open>w\<close>; every other
  destructor and deleter is quiet.
\<close>

definition destroys_member :: "addr \<Rightarrow> var \<Rightarrow> user_code" where
  "destroys_member b w e s =
     (if e = Destructor_call b then step quiet (Weak_dtor w) s else Inr s)"

text \<open>
  User code for an object that keeps itself: the destructor of the object embedded in
  block \<open>b\<close> copies the strong pointer variable \<open>v\<close>, if that is alive, into the new
  variable \<open>w\<close>; every other destructor and deleter is quiet.
\<close>

definition keeps_itself :: "addr \<Rightarrow> var \<Rightarrow> var \<Rightarrow> user_code" where
  "keeps_itself b v w e s =
     (if e = Destructor_call b \<and> strong s v \<noteq> None then step quiet (Copy_ctor w v) s else Inr s)"

section \<open>Evaluation rules\<close>

lemma then_do_simps [simp]:
  "then_do (Inl e) f = Inl e"
  "then_do (Inr x) f = f x"
  by (simp_all add: then_do_def)

lemma noexcept_simps [simp]:
  "noexcept (Inr x) = Inr x"
  "noexcept (Inl Undefined) = Inl Undefined"
  "noexcept (Inl (Throw s)) = Inl (Terminate s)"
  "noexcept (Inl (Terminate s)) = Inl (Terminate s)"
  by (simp_all add: noexcept_def)

lemma emit_emit [simp]: "emit es (emit ds s) = emit (ds @ es) s"
  by (simp add: emit_def)

lemma call_user_quiet [simp]: "call_user quiet e s = Inr (emit [e] s)"
  by (simp add: call_user_def quiet_def)

lemma load_null [simp]: "load 0 s = None"
  by (simp add: load_def)

lemma load_heap: "b \<noteq> 0 \<Longrightarrow> load b s = heap s b"
  by (simp add: load_def)

lemma inc_ref_null [simp]: "inc_ref 0 s = Inl Undefined"
  by (simp add: inc_ref_def)

lemma inc_ref_live:
  "b \<noteq> 0 \<Longrightarrow> heap s b = Some cb \<Longrightarrow>
   inc_ref b s = Inr (store b (cb\<lparr>counter := counter cb + 1\<rparr>) s)"
  by (simp add: inc_ref_def load_def)

lemma inc_weak_ref_live:
  "b \<noteq> 0 \<Longrightarrow> heap s b = Some cb \<Longrightarrow>
   inc_weak_ref b s = Inr (store b (cb\<lparr>weak_counter := weak_counter cb + 1\<rparr>) s)"
  by (simp add: inc_weak_ref_def load_def)

lemma shared_ptr_rebuild [simp]: "\<lparr>block = block x, ptr = ptr x\<rparr> = x"
  by simp

lemma weak_ptr_rebuild [simp]: "\<lparr>block_w = block_w x, ptr_w = ptr_w x\<rparr> = x"
  by simp

lemma strong_write_back: "strong s v = Some x \<Longrightarrow> s\<lparr>strong := (strong s)(v \<mapsto> x)\<rparr> = s"
  by (simp add: map_upd_triv)

lemma weak_write_back: "weak s v = Some x \<Longrightarrow> s\<lparr>weak := (weak s)(v \<mapsto> x)\<rparr> = s"
  by (simp add: map_upd_triv)

section \<open>The accounting invariant\<close>

lemma refs_subset_dom: "refs blk m b \<subseteq> dom m"
  by (auto simp: refs_def)

lemma finite_refs: "finite (dom m) \<Longrightarrow> finite (refs blk m b)"
  by (rule finite_subset [OF refs_subset_dom])

lemma card_refs_le: "finite (dom m) \<Longrightarrow> card (refs blk m b) \<le> card (dom m)"
  by (rule card_mono [OF _ refs_subset_dom])

lemma holders_le: "finite (dom m) \<Longrightarrow> holders blk T m b \<le> card (dom m) + size T"
  unfolding holders_def using card_refs_le [of m blk b] count_le_size [of T b] by linarith

lemma refs_remove: "refs blk (m(v := None)) b = refs blk m b - {v}"
  by (auto simp: refs_def)

lemma refs_put:
  "refs blk (m(v \<mapsto> x)) b = (if blk x = b then insert v (refs blk m b) else refs blk m b - {v})"
  by (auto simp: refs_def)

lemma refs_absent: "m v = None \<Longrightarrow> v \<notin> refs blk m b"
  by (simp add: refs_def)

lemma refs_present: "m v = Some x \<Longrightarrow> v \<in> refs blk m b \<longleftrightarrow> blk x = b"
  by (simp add: refs_def)

lemma holders_add:
  "holders blk (add_mset a T) m b = (if a = b then Suc (holders blk T m b) else holders blk T m b)"
  by (simp add: holders_def)

lemma holders_take:
  assumes "m v = Some x" "finite (dom m)"
  shows "holders blk (add_mset (blk x) T) (m(v := None)) b = holders blk T m b"
proof (cases "blk x = b")
  case True
  then have "v \<in> refs blk m b" using assms by (simp add: refs_present)
  then have "Suc (card (refs blk m b - {v})) = card (refs blk m b)"
    by (rule card_Suc_Diff1 [OF finite_refs [OF assms(2)]])
  then show ?thesis using True by (simp only: holders_def refs_remove count_add_mset if_True) simp
next
  case False
  then have "v \<notin> refs blk m b" using assms by (simp add: refs_present)
  then show ?thesis using False by (simp add: holders_def refs_remove)
qed

lemma holders_put:
  assumes "m v = None" "finite (dom m)"
  shows "holders blk T (m(v \<mapsto> x)) b = holders blk (add_mset (blk x) T) m b"
proof -
  have "v \<notin> refs blk m b" using assms(1) by (simp add: refs_def)
  moreover have "finite (refs blk m b)" by (rule finite_refs [OF assms(2)])
  ultimately show ?thesis by (simp add: holders_def refs_put)
qed

lemma card_dom_take:
  assumes "m v = Some x" "finite (dom m)"
  shows "Suc (card (dom (m(v := None)))) = card (dom m)"
proof -
  have "v \<in> dom m" using assms(1) by (simp add: domI)
  from card_Suc_Diff1 [OF assms(2) this] have "Suc (card (dom m - {v})) = card (dom m)" .
  moreover have "dom (m(v := None)) = dom m - {v}" by simp
  ultimately show ?thesis by (simp only:)
qed

lemma card_dom_put:
  "m v = None \<Longrightarrow> finite (dom m) \<Longrightarrow> card (dom (m(v \<mapsto> x))) = Suc (card (dom m))"
  by (simp add: domIff)

lemma block_ok_null: "block_ok sc wc s 0 = block_ok sc' wc' s 0"
  by (simp add: block_ok_def allocated_def)

lemma accounted_strong_update [simp]: "accounted N T W st wk (s\<lparr>strong := f\<rparr>) = accounted N T W st wk s"
  by (simp add: accounted_def block_ok_def allocated_def)

lemma accounted_weak_update [simp]: "accounted N T W st wk (s\<lparr>weak := f\<rparr>) = accounted N T W st wk s"
  by (simp add: accounted_def block_ok_def allocated_def)

lemma accounted_mono: "accounted N T W st wk s \<Longrightarrow> N \<le> M \<Longrightarrow> accounted M T W st wk s"
  by (auto simp: accounted_def)

lemma accounted_take_strong:
  assumes "accounted N T W st wk s" "st v = Some x"
  shows "accounted N (add_mset (block x) T) W (st(v := None)) wk s"
proof -
  have fin: "finite (dom st)" using assms by (simp add: accounted_def)
  have "Suc (card (dom (st(v := None)))) = card (dom st)"
    using card_dom_take [OF assms(2) fin] .
  moreover have "\<And>b. holders block (add_mset (block x) T) (st(v := None)) b = holders block T st b"
    using holders_take [OF assms(2) fin] .
  ultimately show ?thesis using assms(1) fin by (simp add: accounted_def)
qed

lemma accounted_put_strong:
  assumes "accounted N (add_mset (block x) T) W st wk s" "st v = None"
  shows "accounted N T W (st(v \<mapsto> x)) wk s"
proof -
  have fin: "finite (dom st)" using assms by (simp add: accounted_def)
  have "card (dom (st(v \<mapsto> x))) = Suc (card (dom st))"
    using card_dom_put [OF assms(2) fin] .
  moreover have "\<And>b. holders block T (st(v \<mapsto> x)) b = holders block (add_mset (block x) T) st b"
    using holders_put [OF assms(2) fin] .
  ultimately show ?thesis using assms(1) fin by (simp add: accounted_def)
qed

lemma accounted_take_weak:
  assumes "accounted N T W st wk s" "wk v = Some x"
  shows "accounted N T (add_mset (block_w x) W) st (wk(v := None)) s"
proof -
  have fin: "finite (dom wk)" using assms by (simp add: accounted_def)
  have "Suc (card (dom (wk(v := None)))) = card (dom wk)"
    using card_dom_take [OF assms(2) fin] .
  moreover have "\<And>b. holders block_w (add_mset (block_w x) W) (wk(v := None)) b = holders block_w W wk b"
    using holders_take [OF assms(2) fin] .
  ultimately show ?thesis using assms(1) fin by (simp add: accounted_def)
qed

lemma accounted_put_weak:
  assumes "accounted N T (add_mset (block_w x) W) st wk s" "wk v = None"
  shows "accounted N T W st (wk(v \<mapsto> x)) s"
proof -
  have fin: "finite (dom wk)" using assms by (simp add: accounted_def)
  have "card (dom (wk(v \<mapsto> x))) = Suc (card (dom wk))"
    using card_dom_put [OF assms(2) fin] .
  moreover have "\<And>b. holders block_w W (wk(v \<mapsto> x)) b = holders block_w (add_mset (block_w x) W) wk b"
    using holders_put [OF assms(2) fin] .
  ultimately show ?thesis using assms(1) fin by (simp add: accounted_def)
qed

lemma accounted_overwrite_strong:
  assumes "accounted N (add_mset (block x) T) W st wk s" "st v = Some y"
  shows "accounted N (add_mset (block y) T) W (st(v \<mapsto> x)) wk s"
proof -
  have "accounted N (add_mset (block y) (add_mset (block x) T)) W (st(v := None)) wk s"
    using accounted_take_strong [OF assms] .
  then have "accounted N (add_mset (block x) (add_mset (block y) T)) W (st(v := None)) wk s"
    by (simp add: add_mset_commute)
  from accounted_put_strong [OF this, of v] show ?thesis by simp
qed

lemma accounted_overwrite_weak:
  assumes "accounted N T (add_mset (block_w x) W) st wk s" "wk v = Some y"
  shows "accounted N T (add_mset (block_w y) W) st (wk(v \<mapsto> x)) s"
proof -
  have "accounted N T (add_mset (block_w y) (add_mset (block_w x) W)) st (wk(v := None)) s"
    using accounted_take_weak [OF assms] .
  then have "accounted N T (add_mset (block_w x) (add_mset (block_w y) W)) st (wk(v := None)) s"
    by (simp add: add_mset_commute)
  from accounted_put_weak [OF this, of v] show ?thesis by simp
qed

lemma block_ok_holders_null:
  "block_ok (holders blk (add_mset 0 T) m b) wc s b = block_ok (holders blk T m b) wc s b"
proof (cases "b = 0")
  case True
  then show ?thesis by (simp only: block_ok_null [of _ wc s 0 0])
next
  case False
  then show ?thesis by (simp add: holders_add)
qed

lemma block_ok_holders_null_w:
  "block_ok sc (holders blk (add_mset 0 T) m b) s b = block_ok sc (holders blk T m b) s b"
proof (cases "b = 0")
  case True
  then show ?thesis by (simp only: block_ok_null [of sc _ s 0 0])
next
  case False
  then show ?thesis by (simp add: holders_add)
qed

lemma accounted_null_strong: "accounted N T W st wk s \<Longrightarrow> accounted (Suc N) (add_mset 0 T) W st wk s"
  by (simp add: accounted_def block_ok_holders_null)

lemma accounted_drop_null_strong: "accounted N (add_mset 0 T) W st wk s \<Longrightarrow> accounted (N - 1) T W st wk s"
  by (simp add: accounted_def block_ok_holders_null) linarith

lemma accounted_null_weak: "accounted N T W st wk s \<Longrightarrow> accounted (Suc N) T (add_mset 0 W) st wk s"
  by (simp add: accounted_def block_ok_holders_null_w)

lemma accounted_drop_null_weak: "accounted N T (add_mset 0 W) st wk s \<Longrightarrow> accounted (N - 1) T W st wk s"
  by (simp add: accounted_def block_ok_holders_null_w) linarith

lemma delete_object_live:
  "0 < b \<Longrightarrow> heap s b = Some cb \<Longrightarrow>
   delete_object quiet b s = Inr (emit [Delete_object b, payload_event b cb] s)"
  by (simp add: delete_object_def load_def payload_event_def split: block_kind.splits)

lemma dec_ref_live:
  assumes "0 < b" "heap s b = Some cb"
  shows "dec_ref quiet b s =
     Inr (if counter cb = 1
          then if weak_counter cb = 0
               then s\<lparr>heap := (heap s)(b := None),
                      trace := trace s @ [Delete_object b, payload_event b cb, Delete_this b]\<rparr>
               else s\<lparr>heap := (heap s)(b \<mapsto> cb\<lparr>counter := 0\<rparr>),
                      trace := trace s @ [Delete_object b, payload_event b cb]\<rparr>
          else s\<lparr>heap := (heap s)(b \<mapsto> cb\<lparr>counter := counter cb - 1\<rparr>)\<rparr>)"
proof (cases "counter cb = 1")
  case True
  then show ?thesis using assms
    by (simp add: dec_ref_def load_def store_def delete_object_def delete_this_def emit_def
        payload_event_def split: block_kind.splits)
next
  case False
  then have "counter cb - 1 \<noteq> 0" by simp
  then show ?thesis using assms False
    by (simp add: dec_ref_def load_def store_def)
qed

lemma dec_weak_ref_live:
  assumes "0 < b" "heap s b = Some cb"
  shows "dec_weak_ref b s =
     Inr (if weak_counter cb = 1 \<and> counter cb = 0
          then s\<lparr>heap := (heap s)(b := None), trace := trace s @ [Delete_this b]\<rparr>
          else s\<lparr>heap := (heap s)(b \<mapsto> cb\<lparr>weak_counter := weak_counter cb - 1\<rparr>)\<rparr>)"
proof (cases "weak_counter cb = 1")
  case True
  then show ?thesis using assms
    by (simp add: dec_weak_ref_def load_def store_def delete_this_def emit_def)
next
  case False
  then have "weak_counter cb - 1 \<noteq> 0" by simp
  then show ?thesis using assms False
    by (simp add: dec_weak_ref_def load_def store_def)
qed

lemma unat_inc: "unat (x :: size_t) < 2 ^ 64 - 1 \<Longrightarrow> unat (x + 1) = Suc (unat x)"
  by (simp add: unat_word_ariths)

lemma unat_dec: "(x :: size_t) \<noteq> 0 \<Longrightarrow> unat (x - 1) = unat x - 1"
  by (rule unat_minus_one)

lemma unat_is_one: "unat (x :: size_t) = Suc 0 \<longleftrightarrow> x = 1"
  by (simp add: word_unat_eq_iff)

lemma destroyed_append [simp]:
  "destroyed (tr @ es) b = destroyed tr b + destroyed es b"
  by (simp add: destroyed_def)

lemma reclaimed_append [simp]:
  "reclaimed (tr @ es) b = reclaimed tr b + reclaimed es b"
  by (simp add: reclaimed_def)

lemma destroyed_events [simp]:
  "destroyed [] b = 0"
  "destroyed (Delete_object c # es) b = destroyed es b"
  "destroyed (Deleter_call d p # es) b = destroyed es b"
  "destroyed (Block_deleter_call c d p # es) b =
     (if c = b then Suc (destroyed es b) else destroyed es b)"
  "destroyed (Destructor_call c # es) b = (if c = b then Suc (destroyed es b) else destroyed es b)"
  "destroyed (Delete_this c # es) b = destroyed es b"
  by (simp_all add: destroyed_def)

lemma reclaimed_events [simp]:
  "reclaimed [] b = 0"
  "reclaimed (Delete_this c # es) b = (if c = b then Suc (reclaimed es b) else reclaimed es b)"
  "reclaimed (Deleter_call d p # es) b = reclaimed es b"
  "reclaimed (Block_deleter_call c d p # es) b = reclaimed es b"
  "reclaimed (Destructor_call c # es) b = reclaimed es b"
  "reclaimed (Delete_object c # es) b = reclaimed es b"
  by (simp_all add: reclaimed_def)

lemma destroyed_payload_event [simp]:
  "destroyed (payload_event c cb # es) b = (if c = b then Suc (destroyed es b) else destroyed es b)"
  by (simp add: payload_event_def split: block_kind.splits)

lemma reclaimed_payload_event [simp]: "reclaimed (payload_event c cb # es) b = reclaimed es b"
  by (simp add: payload_event_def split: block_kind.splits)

lemma accountedD:
  assumes "accounted N T W st wk s"
  shows "finite (dom st)" "finite (dom wk)"
    "card (dom st) + size T + card (dom wk) + size W \<le> N" "0 < next_block s"
    "block_ok (holders block T st b) (holders block_w W wk b) s b"
  using assms by (simp_all add: accounted_def)

lemma accounted_live:
  assumes "accounted N T W st wk s" "heap s b = Some cb"
  shows "0 < b" "b < next_block s"
    "unat (counter cb) = holders block T st b"
    "unat (weak_counter cb) = holders block_w W wk b"
    "0 < holders block T st b + holders block_w W wk b"
    "reclaimed (trace s) b = 0"
    "holders block T st b = 0 \<Longrightarrow> destroyed (trace s) b = 1"
    "0 < holders block T st b \<Longrightarrow> destroyed (trace s) b = 0"
  using accountedD(5) [OF assms(1), of b] assms(2) by (simp_all add: block_ok_def allocated_def)

lemma accounted_holders_le:
  assumes "accounted N T W st wk s"
  shows "holders block T st b \<le> N" "holders block_w W wk b \<le> N"
  using holders_le [OF accountedD(1) [OF assms], of block T b]
    holders_le [OF accountedD(2) [OF assms], of block_w W b] accountedD(3) [OF assms]
  by linarith+

lemma accounted_strong_holder_live:
  assumes "accounted N T W st wk s" "0 < b" "0 < holders block T st b"
  shows "\<exists>cb. heap s b = Some cb \<and> counter cb \<noteq> 0"
proof (cases "heap s b")
  case None
  then show ?thesis using accountedD(5) [OF assms(1), of b] assms(2,3) by (simp add: block_ok_def)
next
  case (Some cb)
  then have "unat (counter cb) \<noteq> 0" using accounted_live(3) [OF assms(1) Some] assms(3) by simp
  then show ?thesis using Some by (auto simp: unat_eq_0)
qed

lemma accounted_weak_holder_live:
  assumes "accounted N T W st wk s" "0 < b" "0 < holders block_w W wk b"
  shows "\<exists>cb. heap s b = Some cb"
proof (cases "heap s b")
  case None
  then show ?thesis using accountedD(5) [OF assms(1), of b] assms(2,3) by (simp add: block_ok_def)
next
  case (Some cb)
  then show ?thesis by simp
qed

lemma block_ok_frame:
  assumes "block_ok sc wc s c" "heap s' c = heap s c" "next_block s' = next_block s"
    "destroyed (trace s') c = destroyed (trace s) c"
    "reclaimed (trace s') c = reclaimed (trace s) c"
  shows "block_ok sc wc s' c"
  using assms(1) unfolding block_ok_def allocated_def assms(2-5) .

lemma accountedI:
  assumes "finite (dom st)" "finite (dom wk)"
    "card (dom st) + size T + card (dom wk) + size W \<le> N" "0 < next_block s"
    "\<And>b. block_ok (holders block T st b) (holders block_w W wk b) s b"
  shows "accounted N T W st wk s"
  using assms by (simp add: accounted_def)

lemma accounted_inc_ref:
  assumes inv: "accounted N T W st wk s" and b: "0 < b" and cb: "heap s b = Some cb"
    and nz: "counter cb \<noteq> 0" and N: "Suc N < 2 ^ 64"
  shows "accounted (Suc N) (add_mset b T) W st wk (store b (cb\<lparr>counter := counter cb + 1\<rparr>) s)"
proof (rule accountedI)
  let ?s' = "store b (cb\<lparr>counter := counter cb + 1\<rparr>) s"
  note live = accounted_live [OF inv cb]
  have "unat (counter cb) \<le> N" using live(3) accounted_holders_le(1) [OF inv, of b] by simp
  then have inc: "unat (counter cb + 1) = Suc (holders block T st b)"
    using N live(3) by (simp add: unat_inc)
  have "0 < unat (counter cb)" using nz by (simp add: unat_gt_0)
  then have pos: "0 < holders block T st b" using live(3) by simp
  show "block_ok (holders block (add_mset b T) st c) (holders block_w W wk c) ?s' c" for c
  proof (cases "c = b")
    case True
    then show ?thesis using live inc pos
      by (simp add: block_ok_def allocated_def store_def holders_add)
  next
    case False
    then have "block_ok (holders block T st c) (holders block_w W wk c) ?s' c"
      by (intro block_ok_frame [OF accountedD(5) [OF inv]]) (simp_all add: store_def)
    then show ?thesis using False by (simp add: holders_add)
  qed
qed (use accountedD [OF inv] in \<open>simp_all add: store_def\<close>)

lemma accounted_inc_weak_ref:
  assumes inv: "accounted N T W st wk s" and b: "0 < b" and cb: "heap s b = Some cb"
    and N: "Suc N < 2 ^ 64"
  shows "accounted (Suc N) T (add_mset b W) st wk
           (store b (cb\<lparr>weak_counter := weak_counter cb + 1\<rparr>) s)"
proof (rule accountedI)
  let ?s' = "store b (cb\<lparr>weak_counter := weak_counter cb + 1\<rparr>) s"
  note live = accounted_live [OF inv cb]
  have "unat (weak_counter cb) \<le> N" using live(4) accounted_holders_le(2) [OF inv, of b] by simp
  then have inc: "unat (weak_counter cb + 1) = Suc (holders block_w W wk b)"
    using N live(4) by (simp add: unat_inc)
  show "block_ok (holders block T st c) (holders block_w (add_mset b W) wk c) ?s' c" for c
  proof (cases "c = b")
    case True
    then show ?thesis using live inc
      by (simp add: block_ok_def allocated_def store_def holders_add)
  next
    case False
    then have "block_ok (holders block T st c) (holders block_w W wk c) ?s' c"
      by (intro block_ok_frame [OF accountedD(5) [OF inv]]) (simp_all add: store_def)
    then show ?thesis using False by (simp add: holders_add)
  qed
qed (use accountedD [OF inv] in \<open>simp_all add: store_def\<close>)

lemma accounted_new_block:
  assumes inv: "accounted N T W st wk s"
  shows "accounted (Suc N) (add_mset (next_block s) T) W st wk
           (s\<lparr>heap := (heap s)(next_block s \<mapsto> \<lparr>counter = 1, weak_counter = 0, kind = k\<rparr>),
              next_block := Suc (next_block s)\<rparr>)"
proof (rule accountedI)
  let ?n = "next_block s"
  let ?s' = "s\<lparr>heap := (heap s)(?n \<mapsto> \<lparr>counter = 1, weak_counter = 0, kind = k\<rparr>),
              next_block := Suc ?n\<rparr>"
  have n: "0 < ?n" using accountedD(4) [OF inv] .
  have old: "block_ok (holders block T st c) (holders block_w W wk c) s c" for c
    using accountedD(5) [OF inv] .
  show "block_ok (holders block (add_mset ?n T) st c) (holders block_w W wk c) ?s' c" for c
  proof (cases "c = ?n")
    case True
    have none: "heap s ?n = None" using old [of ?n] by (auto simp: block_ok_def allocated_def)
    then show ?thesis using old [of ?n] n True
      by (simp add: block_ok_def allocated_def holders_add)
  next
    case False
    then show ?thesis using old [of c]
      by (auto simp: block_ok_def allocated_def holders_add)
  qed
qed (use accountedD [OF inv] in simp_all)

lemma accounted_dec_ref:
  assumes inv: "accounted N (add_mset b T) W st wk s" and b: "0 < b"
  shows "\<exists>s'. dec_ref quiet b s = Inr s' \<and> accounted (N - 1) T W st wk s' \<and>
              strong s' = strong s \<and> weak s' = weak s \<and> next_block s' = next_block s"
proof -
  have hb: "holders block (add_mset b T) st b = Suc (holders block T st b)"
    by (simp add: holders_add)
  then obtain cb where cb: "heap s b = Some cb" and nz: "counter cb \<noteq> 0"
    using accounted_strong_holder_live [OF inv b] by auto
  note live = accounted_live [OF inv cb]
  have cnt: "unat (counter cb) = Suc (holders block T st b)" using live(3) hb by simp
  have wcnt: "unat (weak_counter cb) = holders block_w W wk b" using live(4) .
  have d0: "destroyed (trace s) b = 0" using live(8) hb by simp
  have r0: "reclaimed (trace s) b = 0" using live(6) .
  have dec: "unat (counter cb - 1) = holders block T st b" using cnt nz by (simp add: unat_dec)
  have one: "counter cb = 1 \<longleftrightarrow> holders block T st b = 0"
    using cnt unat_is_one [of "counter cb"] by auto
  have wz: "weak_counter cb = 0 \<longleftrightarrow> holders block_w W wk b = 0"
    using wcnt by (simp add: unat_eq_0 [symmetric])
  define s' where "s' =
     (if counter cb = 1
      then if weak_counter cb = 0
           then s\<lparr>heap := (heap s)(b := None),
                  trace := trace s @ [Delete_object b, payload_event b cb, Delete_this b]\<rparr>
           else s\<lparr>heap := (heap s)(b \<mapsto> cb\<lparr>counter := 0\<rparr>),
                  trace := trace s @ [Delete_object b, payload_event b cb]\<rparr>
      else s\<lparr>heap := (heap s)(b \<mapsto> cb\<lparr>counter := counter cb - 1\<rparr>)\<rparr>)"
  have ret: "dec_ref quiet b s = Inr s'" unfolding s'_def by (rule dec_ref_live [OF b cb])
  have frame: "strong s' = strong s" "weak s' = weak s" "next_block s' = next_block s"
    by (simp_all add: s'_def)
  have other: "heap s' c = heap s c" "destroyed (trace s') c = destroyed (trace s) c"
    "reclaimed (trace s') c = reclaimed (trace s) c" if "c \<noteq> b" for c
    using that by (simp_all add: s'_def)
  have "accounted (N - 1) T W st wk s'"
  proof (rule accountedI)
    show "block_ok (holders block T st c) (holders block_w W wk c) s' c" for c
    proof (cases "c = b")
      case True
      show ?thesis unfolding True
        using live(1,2) dec one wz wcnt d0 r0
        by (simp add: block_ok_def allocated_def s'_def)
    next
      case False
      have "block_ok (holders block (add_mset b T) st c) (holders block_w W wk c) s' c"
        by (rule block_ok_frame [OF accountedD(5) [OF inv] other(1) [OF False] frame(3)
              other(2) [OF False] other(3) [OF False]])
      then show ?thesis using False by (simp add: holders_add)
    qed
  qed (use accountedD [OF inv] frame in simp_all)
  then show ?thesis using ret frame by blast
qed

lemma accounted_dec_weak_ref:
  assumes inv: "accounted N T (add_mset b W) st wk s" and b: "0 < b"
  shows "\<exists>s'. dec_weak_ref b s = Inr s' \<and> accounted (N - 1) T W st wk s' \<and>
              strong s' = strong s \<and> weak s' = weak s \<and> next_block s' = next_block s"
proof -
  have hb: "holders block_w (add_mset b W) wk b = Suc (holders block_w W wk b)"
    by (simp add: holders_add)
  then obtain cb where cb: "heap s b = Some cb"
    using accounted_weak_holder_live [OF inv b] by auto
  note live = accounted_live [OF inv cb]
  have cnt: "unat (counter cb) = holders block T st b" using live(3) .
  have wcnt: "unat (weak_counter cb) = Suc (holders block_w W wk b)" using live(4) hb by simp
  then have wnz: "weak_counter cb \<noteq> 0" by auto
  have r0: "reclaimed (trace s) b = 0" using live(6) .
  have dec: "unat (weak_counter cb - 1) = holders block_w W wk b"
    using wcnt wnz by (simp add: unat_dec)
  have one: "weak_counter cb = 1 \<longleftrightarrow> holders block_w W wk b = 0"
    using wcnt unat_is_one [of "weak_counter cb"] by auto
  have cz: "counter cb = 0 \<longleftrightarrow> holders block T st b = 0"
    using cnt by (simp add: unat_eq_0 [symmetric])
  define s' where "s' =
     (if weak_counter cb = 1 \<and> counter cb = 0
      then s\<lparr>heap := (heap s)(b := None), trace := trace s @ [Delete_this b]\<rparr>
      else s\<lparr>heap := (heap s)(b \<mapsto> cb\<lparr>weak_counter := weak_counter cb - 1\<rparr>)\<rparr>)"
  have ret: "dec_weak_ref b s = Inr s'" unfolding s'_def by (rule dec_weak_ref_live [OF b cb])
  have frame: "strong s' = strong s" "weak s' = weak s" "next_block s' = next_block s"
    by (simp_all add: s'_def)
  have other: "heap s' c = heap s c" "destroyed (trace s') c = destroyed (trace s) c"
    "reclaimed (trace s') c = reclaimed (trace s) c" if "c \<noteq> b" for c
    using that by (simp_all add: s'_def)
  have "accounted (N - 1) T W st wk s'"
  proof (rule accountedI)
    show "block_ok (holders block T st c) (holders block_w W wk c) s' c" for c
    proof (cases "c = b")
      case True
      show ?thesis unfolding True
        using live(1,2,7,8) dec one cz cnt r0
        by (auto simp: block_ok_def allocated_def s'_def)
    next
      case False
      have "block_ok (holders block T st c) (holders block_w (add_mset b W) wk c) s' c"
        by (rule block_ok_frame [OF accountedD(5) [OF inv] other(1) [OF False] frame(3)
              other(2) [OF False] other(3) [OF False]])
      then show ?thesis using False by (simp add: holders_add)
    qed
  qed (use accountedD [OF inv] frame in simp_all)
  then show ?thesis using ret frame by blast
qed

lemma then_do_Inr: "then_do r f = Inr y \<longleftrightarrow> (\<exists>x. r = Inr x \<and> f x = Inr y)"
  by (cases r) simp_all

lemma with_strong_Inr:
  "with_strong v s f = Inr y \<longleftrightarrow> (\<exists>x. strong s v = Some x \<and> f x = Inr y)"
  by (simp add: with_strong_def split: option.splits)

lemma with_weak_Inr:
  "with_weak v s f = Inr y \<longleftrightarrow> (\<exists>x. weak s v = Some x \<and> f x = Inr y)"
  by (simp add: with_weak_def split: option.splits)

lemma declare_strong_Inr:
  "declare_strong v r = Inr s' \<longleftrightarrow>
   (\<exists>p s1. r = Inr (p, s1) \<and> strong s1 v = None \<and> s' = s1\<lparr>strong := (strong s1)(v \<mapsto> p)\<rparr>)"
  by (cases r) (auto simp: declare_strong_def split: if_splits)

lemma declare_weak_Inr:
  "declare_weak v r = Inr s' \<longleftrightarrow>
   (\<exists>p s1. r = Inr (p, s1) \<and> weak s1 v = None \<and> s' = s1\<lparr>weak := (weak s1)(v \<mapsto> p)\<rparr>)"
  by (cases r) (auto simp: declare_weak_def split: if_splits)

lemma noexcept_Inr: "noexcept r = Inr y \<longleftrightarrow> r = Inr y"
  by (cases r) (auto simp: noexcept_def split: failure.splits)

text \<open>Micro-steps on the strong side.\<close>

lemma consistent_with_put_strong:
  assumes "consistent_with N (add_mset (block p) T) W s" "strong s v = None"
  shows "consistent_with N T W (s\<lparr>strong := (strong s)(v \<mapsto> p)\<rparr>)"
  using accounted_put_strong [OF assms(1) [unfolded consistent_with_def] assms(2)]
  by (simp add: consistent_with_def)

lemma consistent_with_put_weak:
  assumes "consistent_with N T (add_mset (block_w p) W) s" "weak s v = None"
  shows "consistent_with N T W (s\<lparr>weak := (weak s)(v \<mapsto> p)\<rparr>)"
  using accounted_put_weak [OF assms(1) [unfolded consistent_with_def] assms(2)]
  by (simp add: consistent_with_def)

lemma consistent_with_strong_var:
  assumes "consistent_with N T W s" "strong s v = Some x"
  shows "0 < holders block T (strong s) (block x)"
proof -
  have "finite (refs block (strong s) (block x))"
    using finite_refs accountedD(1) [OF assms(1) [unfolded consistent_with_def]] by blast
  moreover have "v \<in> refs block (strong s) (block x)" using assms(2) by (simp add: refs_def)
  ultimately have "0 < card (refs block (strong s) (block x))" by (auto simp: card_gt_0_iff)
  then show ?thesis by (simp add: holders_def)
qed

lemma consistent_with_weak_var:
  assumes "consistent_with N T W s" "weak s v = Some x"
  shows "0 < holders block_w W (weak s) (block_w x)"
proof -
  have "finite (refs block_w (weak s) (block_w x))"
    using finite_refs accountedD(2) [OF assms(1) [unfolded consistent_with_def]] by blast
  moreover have "v \<in> refs block_w (weak s) (block_w x)" using assms(2) by (simp add: refs_def)
  ultimately have "0 < card (refs block_w (weak s) (block_w x))" by (auto simp: card_gt_0_iff)
  then show ?thesis by (simp add: holders_def)
qed

lemma consistent_with_inc_ref:
  assumes inv: "consistent_with N T W s" and N: "Suc N < 2 ^ 64" and b: "0 < b"
    and cb: "heap s b = Some cb" and nz: "counter cb \<noteq> 0"
  shows "\<exists>s'. inc_ref b s = Inr s' \<and> s' = store b (cb\<lparr>counter := counter cb + 1\<rparr>) s \<and>
           consistent_with (Suc N) (add_mset b T) W s'"
  using accounted_inc_ref [OF inv [unfolded consistent_with_def] b cb nz N] b cb
  by (simp add: consistent_with_def inc_ref_live store_def)

lemma consistent_with_inc_ref_held:
  assumes inv: "consistent_with N T W s" and N: "Suc N < 2 ^ 64" and b: "0 < b"
    and held: "0 < holders block T (strong s) b"
  shows "\<exists>s' cb. heap s b = Some cb \<and> inc_ref b s = Inr s' \<and>
           s' = store b (cb\<lparr>counter := counter cb + 1\<rparr>) s \<and>
           consistent_with (Suc N) (add_mset b T) W s'"
proof -
  obtain cb where cb: "heap s b = Some cb" "counter cb \<noteq> 0"
    using accounted_strong_holder_live [OF inv [unfolded consistent_with_def] b held] by auto
  from consistent_with_inc_ref [OF inv N b cb] cb(1) show ?thesis by blast
qed

lemma consistent_with_inc_weak_ref_held:
  assumes inv: "consistent_with N T W s" and N: "Suc N < 2 ^ 64" and b: "0 < b"
    and held: "0 < holders block T (strong s) b \<or> 0 < holders block_w W (weak s) b"
  shows "\<exists>s' cb. heap s b = Some cb \<and> inc_weak_ref b s = Inr s' \<and>
           s' = store b (cb\<lparr>weak_counter := weak_counter cb + 1\<rparr>) s \<and>
           consistent_with (Suc N) T (add_mset b W) s'"
proof -
  obtain cb where cb: "heap s b = Some cb"
    using accounted_strong_holder_live [OF inv [unfolded consistent_with_def] b]
      accounted_weak_holder_live [OF inv [unfolded consistent_with_def] b] held by metis
  from accounted_inc_weak_ref [OF inv [unfolded consistent_with_def] b cb N] b cb show ?thesis
    by (simp add: consistent_with_def inc_weak_ref_live store_def)
qed

lemma consistent_with_null_strong: "consistent_with N T W s \<Longrightarrow> consistent_with (Suc N) (add_mset 0 T) W s"
  by (simp add: consistent_with_def accounted_null_strong)

lemma consistent_with_null_weak: "consistent_with N T W s \<Longrightarrow> consistent_with (Suc N) T (add_mset 0 W) s"
  by (simp add: consistent_with_def accounted_null_weak)

lemma consistent_with_mono: "consistent_with N T W s \<Longrightarrow> N \<le> M \<Longrightarrow> consistent_with M T W s"
  by (auto simp: consistent_with_def intro: accounted_mono)

lemma accounted_shared_ptr_dtor:
  assumes "accounted N (add_mset (block x) T) W st wk s"
  shows "\<exists>s'. shared_ptr_dtor quiet x s = Inr s' \<and> accounted (N - 1) T W st wk s' \<and>
              strong s' = strong s \<and> weak s' = weak s \<and> next_block s' = next_block s"
proof (cases "block x = 0")
  case True
  then show ?thesis using accounted_drop_null_strong [of N T W st wk s] assms
    by (simp add: shared_ptr_dtor_def)
next
  case False
  then show ?thesis using accounted_dec_ref [OF assms] by (simp add: shared_ptr_dtor_def)
qed

lemma accounted_weak_ptr_dtor:
  assumes "accounted N T (add_mset (block_w x) W) st wk s"
  shows "\<exists>s'. weak_ptr_dtor x s = Inr s' \<and> accounted (N - 1) T W st wk s' \<and>
              strong s' = strong s \<and> weak s' = weak s \<and> next_block s' = next_block s"
proof (cases "block_w x = 0")
  case True
  then show ?thesis using accounted_drop_null_weak [of N T W st wk s] assms
    by (simp add: weak_ptr_dtor_def)
next
  case False
  then show ?thesis using accounted_dec_weak_ref [OF assms] by (simp add: weak_ptr_dtor_def)
qed

lemma consistent_with_shared_ptr_dtor:
  assumes "consistent_with N (add_mset (block x) T) W s"
  shows "\<exists>s'. shared_ptr_dtor quiet x s = Inr s' \<and> consistent_with (N - 1) T W s'"
  using accounted_shared_ptr_dtor [OF assms [unfolded consistent_with_def]]
  by (auto simp: consistent_with_def)

lemma consistent_with_weak_ptr_dtor:
  assumes "consistent_with N T (add_mset (block_w x) W) s"
  shows "\<exists>s'. weak_ptr_dtor x s = Inr s' \<and> consistent_with (N - 1) T W s'"
  using accounted_weak_ptr_dtor [OF assms [unfolded consistent_with_def]]
  by (auto simp: consistent_with_def)

lemma consistent_with_swap_into:
  assumes "consistent_with N (add_mset (block tmp) T) W s" "strong s v = Some t"
  shows "\<exists>s'. swap_into tmp v s = Inr (t, s') \<and> consistent_with N (add_mset (block t) T) W s'"
  using accounted_overwrite_strong [OF assms(1) [unfolded consistent_with_def] assms(2)] assms(2)
  by (simp add: swap_into_def consistent_with_def)

lemma consistent_with_swap_into_w:
  assumes "consistent_with N T (add_mset (block_w tmp) W) s" "weak s v = Some t"
  shows "\<exists>s'. swap_into_w tmp v s = Inr (t, s') \<and> consistent_with N T (add_mset (block_w t) W) s'"
  using accounted_overwrite_weak [OF assms(1) [unfolded consistent_with_def] assms(2)] assms(2)
  by (simp add: swap_into_w_def consistent_with_def)

lemma consistent_with_shared_ptr_move:
  assumes "consistent_with N T W s" "strong s v = Some x"
  shows "\<exists>s'. shared_ptr_move v s = Inr (x, s') \<and> consistent_with (Suc N) (add_mset (block x) T) W s'"
proof -
  have "accounted (Suc N) (add_mset (block \<lparr>block = 0, ptr = 0\<rparr>) T) W (strong s) (weak s) s"
    using accounted_null_strong [OF assms(1) [unfolded consistent_with_def]] by simp
  from accounted_overwrite_strong [OF this assms(2)] show ?thesis using assms(2)
    by (simp add: shared_ptr_move_def consistent_with_def)
qed

lemma consistent_with_weak_ptr_move:
  assumes "consistent_with N T W s" "weak s v = Some x"
  shows "\<exists>s'. weak_ptr_move v s = Inr (x, s') \<and> consistent_with (Suc N) T (add_mset (block_w x) W) s'"
proof -
  have "accounted (Suc N) T (add_mset (block_w \<lparr>block_w = 0, ptr_w = 0\<rparr>) W) (strong s) (weak s) s"
    using accounted_null_weak [OF assms(1) [unfolded consistent_with_def]] by simp
  from accounted_overwrite_weak [OF this assms(2)] show ?thesis using assms(2)
    by (simp add: weak_ptr_move_def consistent_with_def)
qed

lemma consistent_with_shared_ptr_copy:
  assumes inv: "consistent_with N T W s" and N: "Suc N < 2 ^ 64"
    and held: "block x = 0 \<or> 0 < holders block T (strong s) (block x)"
  shows "\<exists>s'. shared_ptr_copy x s = Inr (x, s') \<and>
           consistent_with (Suc N) (add_mset (block x) T) W s'"
proof (cases "block x = 0")
  case True
  then show ?thesis using consistent_with_null_strong [OF inv] by (simp add: shared_ptr_copy_def)
next
  case False
  then show ?thesis using consistent_with_inc_ref_held [OF inv N, of "block x"] held
    by (auto simp: shared_ptr_copy_def)
qed

lemma consistent_with_weak_ptr_copy:
  assumes inv: "consistent_with N T W s" and N: "Suc N < 2 ^ 64"
    and held: "block_w x = 0 \<or> 0 < holders block_w W (weak s) (block_w x)"
  shows "\<exists>s'. weak_ptr_copy x s = Inr (x, s') \<and>
           consistent_with (Suc N) T (add_mset (block_w x) W) s'"
proof (cases "block_w x = 0")
  case True
  then show ?thesis using consistent_with_null_weak [OF inv] by (simp add: weak_ptr_copy_def)
next
  case False
  then show ?thesis using consistent_with_inc_weak_ref_held [OF inv N, of "block_w x"] held
    by (auto simp: weak_ptr_copy_def)
qed

lemma consistent_with_weak_ptr_from_shared:
  assumes inv: "consistent_with N T W s" and N: "Suc N < 2 ^ 64"
    and held: "block x = 0 \<or> 0 < holders block T (strong s) (block x)"
  shows "\<exists>s'. weak_ptr_from_shared x s = Inr (\<lparr>block_w = block x, ptr_w = ptr x\<rparr>, s') \<and>
           consistent_with (Suc N) T (add_mset (block x) W) s'"
proof (cases "block x = 0")
  case True
  then show ?thesis using consistent_with_null_weak [OF inv] by (simp add: weak_ptr_from_shared_def)
next
  case False
  then show ?thesis using consistent_with_inc_weak_ref_held [OF inv N, of "block x"] held
    by (auto simp: weak_ptr_from_shared_def)
qed

lemma consistent_with_new_block:
  assumes "consistent_with N T W s"
  shows "\<exists>s'. new_block k True s = Inr (next_block s, s') \<and> 0 < next_block s \<and>
           consistent_with (Suc N) (add_mset (next_block s) T) W s'"
  using accounted_new_block [OF assms [unfolded consistent_with_def], of k]
    accountedD(4) [OF assms [unfolded consistent_with_def]]
  by (simp add: new_block_def consistent_with_def)

text \<open>Constructors: whatever they return is accounted for as one more temporary.\<close>

lemma ctor_default:
  assumes "consistent_with N T W s"
  shows "consistent_with (Suc N) (add_mset (block shared_ptr_default) T) W s"
  using consistent_with_null_strong [OF assms] by (simp add: shared_ptr_default_def)

lemma ctor_raw:
  assumes "consistent_with N T W s" "shared_ptr_raw quiet off p d ok s = Inr (q, s1)"
  shows "consistent_with (Suc N) (add_mset (block q) T) W s1"
proof (cases ok)
  case True
  then show ?thesis using consistent_with_new_block [OF assms(1), of "Regular_control_block p d"] assms(2)
    by (auto simp: shared_ptr_raw_def)
next
  case False
  then show ?thesis using assms(2) by (simp add: shared_ptr_raw_def new_block_def)
qed

lemma ctor_make_shared:
  assumes "consistent_with N T W s" "make_shared ok s = Inr (q, s1)"
  shows "consistent_with (Suc N) (add_mset (block q) T) W s1"
proof (cases ok)
  case True
  then show ?thesis using consistent_with_new_block [OF assms(1), of Inplace_control_block] assms(2)
    by (auto simp: make_shared_def)
next
  case False
  then show ?thesis using assms(2) by (simp add: make_shared_def new_block_def)
qed

lemma ctor_alias:
  assumes "consistent_with N T W s" "Suc N < 2 ^ 64" "strong s r = Some x"
    "shared_ptr_alias x p s = Inr (q, s1)"
  shows "consistent_with (Suc N) (add_mset (block q) T) W s1"
proof (cases "block x = 0")
  case True
  then show ?thesis using assms(4) by (simp add: shared_ptr_alias_def)
next
  case False
  then show ?thesis
    using consistent_with_inc_ref_held [OF assms(1,2), of "block x"]
      consistent_with_strong_var [OF assms(1,3)] assms(4)
    by (auto simp: shared_ptr_alias_def)
qed

lemma ctor_convert:
  assumes "consistent_with N T W s" "Suc N < 2 ^ 64" "strong s r = Some x"
    "shared_ptr_convert off x s = Inr (q, s1)"
  shows "consistent_with (Suc N) (add_mset (block q) T) W s1"
proof (cases "block x = 0")
  case True
  then show ?thesis using assms(4) by (simp add: shared_ptr_convert_def)
next
  case False
  then show ?thesis
    using consistent_with_inc_ref_held [OF assms(1,2), of "block x"]
      consistent_with_strong_var [OF assms(1,3)] assms(4)
    by (auto simp: shared_ptr_convert_def)
qed

lemma ctor_copy:
  assumes "consistent_with N T W s" "Suc N < 2 ^ 64" "strong s r = Some x"
    "shared_ptr_copy x s = Inr (q, s1)"
  shows "consistent_with (Suc N) (add_mset (block q) T) W s1"
  using consistent_with_shared_ptr_copy [OF assms(1,2), of x] consistent_with_strong_var [OF assms(1,3)]
    assms(4) by auto

lemma ctor_move:
  assumes "consistent_with N T W s" "shared_ptr_move r s = Inr (q, s1)"
  shows "consistent_with (Suc N) (add_mset (block q) T) W s1"
proof (cases "strong s r")
  case None
  then show ?thesis using assms(2) by (simp add: shared_ptr_move_def)
next
  case (Some x)
  then show ?thesis using consistent_with_shared_ptr_move [OF assms(1) Some] assms(2) by auto
qed

lemma ctor_lock:
  assumes inv: "consistent_with N T W s" and N: "Suc N < 2 ^ 64" and w: "weak s r = Some x"
    and ret: "lock x s = Inr (q, s1)"
  shows "consistent_with (Suc N) (add_mset (block q) T) W s1"
proof (cases "block_w x = 0")
  case True
  then show ?thesis using ret ctor_default [OF inv] by (simp add: lock_def)
next
  case False
  then obtain cb where cb: "heap s (block_w x) = Some cb"
    using accounted_weak_holder_live [OF inv [unfolded consistent_with_def], of "block_w x"]
      consistent_with_weak_var [OF inv w] by auto
  show ?thesis
  proof (cases "counter cb = 0")
    case True
    then show ?thesis using ret False cb ctor_default [OF inv]
      by (simp add: lock_def object_deleted_def load_def)
  next
    case nz: False
    then show ?thesis using ret False cb consistent_with_inc_ref [OF inv N _ cb nz]
      by (auto simp: lock_def object_deleted_def load_def)
  qed
qed

lemma ctor_weak_default:
  assumes "consistent_with N T W s"
  shows "consistent_with (Suc N) T (add_mset (block_w weak_ptr_default) W) s"
  using consistent_with_null_weak [OF assms] by (simp add: weak_ptr_default_def)

lemma ctor_weak_copy:
  assumes "consistent_with N T W s" "Suc N < 2 ^ 64" "weak s r = Some x"
    "weak_ptr_copy x s = Inr (q, s1)"
  shows "consistent_with (Suc N) T (add_mset (block_w q) W) s1"
  using consistent_with_weak_ptr_copy [OF assms(1,2), of x] consistent_with_weak_var [OF assms(1,3)]
    assms(4) by auto

lemma ctor_weak_from_shared:
  assumes "consistent_with N T W s" "Suc N < 2 ^ 64" "strong s r = Some x"
    "weak_ptr_from_shared x s = Inr (q, s1)"
  shows "consistent_with (Suc N) T (add_mset (block_w q) W) s1"
  using consistent_with_weak_ptr_from_shared [OF assms(1,2), of x] consistent_with_strong_var [OF assms(1,3)]
    assms(4) by auto

lemma ctor_weak_move:
  assumes "consistent_with N T W s" "weak_ptr_move r s = Inr (q, s1)"
  shows "consistent_with (Suc N) T (add_mset (block_w q) W) s1"
proof (cases "weak s r")
  case None
  then show ?thesis using assms(2) by (simp add: weak_ptr_move_def)
next
  case (Some x)
  then show ?thesis using consistent_with_weak_ptr_move [OF assms(1) Some] assms(2) by auto
qed

text \<open>Declaring a variable from a constructed value.\<close>

lemma declare_strong_inv:
  assumes "declare_strong v r = Inr s'"
    and "\<And>q s1. r = Inr (q, s1) \<Longrightarrow> consistent_with M {#block q#} {#} s1"
  shows "consistent M s'"
  using assms consistent_with_put_strong [of M _ "{#}" "{#}" _ v]
  by (auto simp: declare_strong_Inr consistent_def)

lemma declare_weak_inv:
  assumes "declare_weak v r = Inr s'"
    and "\<And>q s1. r = Inr (q, s1) \<Longrightarrow> consistent_with M {#} {#block_w q#} s1"
  shows "consistent M s'"
  using assms consistent_with_put_weak [of M "{#}" _ "{#}" _ v]
  by (auto simp: declare_weak_Inr consistent_def)

text \<open>The tail shared by the assignments and resets: swap the temporary in, destroy it.\<close>

lemma swap_destroy_inv:
  assumes "consistent_with M {#block tmp#} {#} s1"
    and "then_do (swap_into tmp v s1) (\<lambda>(tmp', s2). shared_ptr_dtor quiet tmp' s2) = Inr s'"
  shows "consistent (M - 1) s'"
proof (cases "strong s1 v")
  case None
  then show ?thesis using assms(2) by (simp add: swap_into_def)
next
  case (Some t)
  from consistent_with_swap_into [OF assms(1) Some] obtain s2
    where s2: "swap_into tmp v s1 = Inr (t, s2)" "consistent_with M {#block t#} {#} s2" by blast
  from consistent_with_shared_ptr_dtor [OF s2(2)] obtain s3
    where "shared_ptr_dtor quiet t s2 = Inr s3" "consistent_with (M - 1) {#} {#} s3" by blast
  then show ?thesis using assms(2) s2(1) by (simp add: consistent_def)
qed

lemma swap_destroy_weak_inv:
  assumes "consistent_with M {#} {#block_w tmp#} s1"
    and "then_do (swap_into_w tmp v s1) (\<lambda>(tmp', s2). weak_ptr_dtor tmp' s2) = Inr s'"
  shows "consistent (M - 1) s'"
proof (cases "weak s1 v")
  case None
  then show ?thesis using assms(2) by (simp add: swap_into_w_def)
next
  case (Some t)
  from consistent_with_swap_into_w [OF assms(1) Some] obtain s2
    where s2: "swap_into_w tmp v s1 = Inr (t, s2)" "consistent_with M {#} {#block_w t#} s2" by blast
  from consistent_with_weak_ptr_dtor [OF s2(2)] obtain s3
    where "weak_ptr_dtor t s2 = Inr s3" "consistent_with (M - 1) {#} {#} s3" by blast
  then show ?thesis using assms(2) s2(1) by (simp add: consistent_def)
qed

lemma consistent_mono: "consistent N s \<Longrightarrow> N \<le> M \<Longrightarrow> consistent M s"
  unfolding consistent_def by (rule consistent_with_mono)

text \<open>Each statement keeps the state consistent and adds at most one object.\<close>

lemma copy_assign_consistent:
  assumes inv: "consistent N s" and N: "Suc N < 2 ^ 64"
    and ret: "shared_ptr_copy_assign quiet v other s = Inr s'"
  shows "consistent N s'"
proof (cases "v = other")
  case True
  then show ?thesis using ret inv by (simp add: shared_ptr_copy_assign_def)
next
  case False
  then obtain x tmp s1 where x: "strong s other = Some x"
    and c: "shared_ptr_copy x s = Inr (tmp, s1)"
    and tail: "then_do (swap_into tmp v s1) (\<lambda>(tmp', s2). shared_ptr_dtor quiet tmp' s2) = Inr s'"
    using ret by (auto simp: shared_ptr_copy_assign_def then_do_Inr split: option.splits)
  from swap_destroy_inv [OF ctor_copy [OF inv [unfolded consistent_def] N x c] tail]
  show ?thesis by simp
qed

lemma move_assign_consistent:
  assumes inv: "consistent N s" and ret: "shared_ptr_move_assign quiet v other s = Inr s'"
  shows "consistent N s'"
proof -
  obtain tmp s1 where c: "shared_ptr_move other s = Inr (tmp, s1)"
    and tail: "then_do (swap_into tmp v s1) (\<lambda>(tmp', s2). shared_ptr_dtor quiet tmp' s2) = Inr s'"
    using ret by (auto simp: shared_ptr_move_assign_def then_do_Inr)
  from swap_destroy_inv [OF ctor_move [OF inv [unfolded consistent_def] c] tail]
  show ?thesis by simp
qed

lemma reset_consistent:
  assumes inv: "consistent N s" and ret: "shared_ptr_reset quiet v s = Inr s'"
  shows "consistent N s'"
  using swap_destroy_inv [OF ctor_default [OF inv [unfolded consistent_def]]
      ret [unfolded shared_ptr_reset_def]]
  by simp

lemma reset_raw_consistent:
  assumes inv: "consistent N s" and ret: "shared_ptr_reset_raw quiet v off p d ok s = Inr s'"
  shows "consistent N s'"
proof -
  obtain tmp s1 where c: "shared_ptr_raw quiet off p d ok s = Inr (tmp, s1)"
    and tail: "then_do (swap_into tmp v s1) (\<lambda>(tmp', s2). shared_ptr_dtor quiet tmp' s2) = Inr s'"
    using ret by (auto simp: shared_ptr_reset_raw_def noexcept_Inr then_do_Inr)
  from swap_destroy_inv [OF ctor_raw [OF inv [unfolded consistent_def] c] tail]
  show ?thesis by simp
qed

lemma swap_consistent:
  assumes inv: "consistent N s" and ret: "shared_ptr_swap v other s = Inr s'"
  shows "consistent N s'"
proof -
  obtain t x where t: "strong s v = Some t" and x: "strong s other = Some x"
    and s': "s' = s\<lparr>strong := (strong s)(v \<mapsto> x, other \<mapsto> t)\<rparr>"
    using ret by (auto simp: shared_ptr_swap_def split: option.splits)
  show ?thesis
  proof (cases "v = other")
    case True
    then have "s' = s" using s' t by (simp add: strong_write_back)
    then show ?thesis using inv by simp
  next
    case False
    note g = inv [unfolded consistent_def consistent_with_def]
    have 1: "accounted N {#block t#} {#} ((strong s)(v := None)) (weak s) s"
      using accounted_take_strong [OF g t] .
    have "((strong s)(v := None)) other = Some x" using False x by simp
    from accounted_overwrite_strong [OF 1 this]
    have 2: "accounted N {#block x#} {#} ((strong s)(v := None, other \<mapsto> t)) (weak s) s" .
    have "((strong s)(v := None, other \<mapsto> t)) v = None" using False by simp
    from accounted_put_strong [OF 2 this]
    have "accounted N {#} {#} ((strong s)(v := None, other \<mapsto> t, v \<mapsto> x)) (weak s) s" .
    moreover have "(strong s)(v := None, other \<mapsto> t, v \<mapsto> x) = (strong s)(v \<mapsto> x, other \<mapsto> t)"
      using False by (auto simp: fun_eq_iff)
    ultimately show ?thesis by (simp add: consistent_def consistent_with_def s')
  qed
qed

lemma dtor_consistent:
  assumes inv: "consistent N s" and ret: "step quiet (Dtor v) s = Inr s'"
  shows "consistent N s'"
proof -
  obtain x s1 where x: "strong s v = Some x" and d: "shared_ptr_dtor quiet x s = Inr s1"
    and s': "s' = s1\<lparr>strong := (strong s1)(v := None)\<rparr>"
    using ret by (auto simp: with_strong_Inr then_do_Inr)
  from accounted_take_strong [OF inv [unfolded consistent_def consistent_with_def] x]
  have "accounted N {#block x#} {#} ((strong s)(v := None)) (weak s) s" .
  from accounted_shared_ptr_dtor [OF this] d
  have "accounted (N - 1) {#} {#} ((strong s)(v := None)) (weak s) s1"
    "strong s1 = strong s" "weak s1 = weak s" by auto
  then have "consistent (N - 1) s'" by (simp add: consistent_def consistent_with_def s')
  then show ?thesis by (rule consistent_mono) simp
qed

lemma weak_copy_assign_consistent:
  assumes inv: "consistent N s" and N: "Suc N < 2 ^ 64"
    and ret: "weak_ptr_copy_assign v other s = Inr s'"
  shows "consistent N s'"
proof (cases "other = v")
  case True
  then show ?thesis using ret inv by (simp add: weak_ptr_copy_assign_def)
next
  case False
  then obtain x tmp s1 where x: "weak s other = Some x"
    and c: "weak_ptr_copy x s = Inr (tmp, s1)"
    and tail: "then_do (swap_into_w tmp v s1) (\<lambda>(tmp', s2). weak_ptr_dtor tmp' s2) = Inr s'"
    using ret by (auto simp: weak_ptr_copy_assign_def then_do_Inr split: option.splits)
  from swap_destroy_weak_inv [OF ctor_weak_copy [OF inv [unfolded consistent_def] N x c] tail]
  show ?thesis by simp
qed

lemma weak_move_assign_consistent:
  assumes inv: "consistent N s" and ret: "weak_ptr_move_assign v other s = Inr s'"
  shows "consistent N s'"
proof -
  obtain tmp s1 where c: "weak_ptr_move other s = Inr (tmp, s1)"
    and tail: "then_do (swap_into_w tmp v s1) (\<lambda>(tmp', s2). weak_ptr_dtor tmp' s2) = Inr s'"
    using ret by (auto simp: weak_ptr_move_assign_def then_do_Inr)
  from swap_destroy_weak_inv [OF ctor_weak_move [OF inv [unfolded consistent_def] c] tail]
  show ?thesis by simp
qed

lemma weak_assign_shared_consistent:
  assumes inv: "consistent N s" and N: "Suc N < 2 ^ 64"
    and ret: "weak_ptr_assign_shared v other s = Inr s'"
  shows "consistent N s'"
proof -
  obtain x tmp s1 where x: "strong s other = Some x"
    and c: "weak_ptr_from_shared x s = Inr (tmp, s1)"
    and tail: "then_do (swap_into_w tmp v s1) (\<lambda>(tmp', s2). weak_ptr_dtor tmp' s2) = Inr s'"
    using ret by (auto simp: weak_ptr_assign_shared_def then_do_Inr split: option.splits)
  from swap_destroy_weak_inv
    [OF ctor_weak_from_shared [OF inv [unfolded consistent_def] N x c] tail]
  show ?thesis by simp
qed

lemma weak_swap_consistent:
  assumes inv: "consistent N s" and ret: "weak_ptr_swap v other s = Inr s'"
  shows "consistent N s'"
proof -
  obtain t x where t: "weak s v = Some t" and x: "weak s other = Some x"
    and s': "s' = s\<lparr>weak := (weak s)(v \<mapsto> x, other \<mapsto> t)\<rparr>"
    using ret by (auto simp: weak_ptr_swap_def split: option.splits)
  show ?thesis
  proof (cases "v = other")
    case True
    then have "s' = s" using s' t by (simp add: weak_write_back)
    then show ?thesis using inv by simp
  next
    case False
    note g = inv [unfolded consistent_def consistent_with_def]
    have 1: "accounted N {#} {#block_w t#} (strong s) ((weak s)(v := None)) s"
      using accounted_take_weak [OF g t] .
    have "((weak s)(v := None)) other = Some x" using False x by simp
    from accounted_overwrite_weak [OF 1 this]
    have 2: "accounted N {#} {#block_w x#} (strong s) ((weak s)(v := None, other \<mapsto> t)) s" .
    have "((weak s)(v := None, other \<mapsto> t)) v = None" using False by simp
    from accounted_put_weak [OF 2 this]
    have "accounted N {#} {#} (strong s) ((weak s)(v := None, other \<mapsto> t, v \<mapsto> x)) s" .
    moreover have "(weak s)(v := None, other \<mapsto> t, v \<mapsto> x) = (weak s)(v \<mapsto> x, other \<mapsto> t)"
      using False by (auto simp: fun_eq_iff)
    ultimately show ?thesis by (simp add: consistent_def consistent_with_def s')
  qed
qed

lemma weak_dtor_consistent:
  assumes inv: "consistent N s" and ret: "step quiet (Weak_dtor v) s = Inr s'"
  shows "consistent N s'"
proof -
  obtain x s1 where x: "weak s v = Some x" and d: "weak_ptr_dtor x s = Inr s1"
    and s': "s' = s1\<lparr>weak := (weak s1)(v := None)\<rparr>"
    using ret by (auto simp: with_weak_Inr then_do_Inr)
  from accounted_take_weak [OF inv [unfolded consistent_def consistent_with_def] x]
  have "accounted N {#} {#block_w x#} (strong s) ((weak s)(v := None)) s" .
  from accounted_weak_ptr_dtor [OF this] d
  have "accounted (N - 1) {#} {#} (strong s) ((weak s)(v := None)) s1"
    "strong s1 = strong s" "weak s1 = weak s" by auto
  then have "consistent (N - 1) s'" by (simp add: consistent_def consistent_with_def s')
  then show ?thesis by (rule consistent_mono) simp
qed

lemma step_consistent:
  assumes inv: "consistent N s" and N: "Suc N < 2 ^ 64" and ret: "step quiet x s = Inr s'"
  shows "consistent (Suc N) s'"
proof -
  note iw = inv [unfolded consistent_def]
  have up: "consistent N s' \<Longrightarrow> consistent (Suc N) s'" by (erule consistent_mono) simp
  show ?thesis
  proof (cases x)
    case (Default_ctor v)
    show ?thesis using ret [unfolded Default_ctor step.simps]
      by (rule declare_strong_inv) (use ctor_default [OF iw] in auto)
  next
    case (Raw_ctor v off p d ok)
    show ?thesis using ret [unfolded Raw_ctor step.simps]
      by (rule declare_strong_inv) (rule ctor_raw [OF iw])
  next
    case (Make_shared v ok)
    show ?thesis using ret [unfolded Make_shared step.simps]
      by (rule declare_strong_inv) (rule ctor_make_shared [OF iw])
  next
    case (Alias_ctor v r p)
    show ?thesis using ret [unfolded Alias_ctor step.simps]
      by (rule declare_strong_inv) (auto simp: with_strong_Inr intro: ctor_alias [OF iw N])
  next
    case (Copy_ctor v r)
    show ?thesis using ret [unfolded Copy_ctor step.simps]
      by (rule declare_strong_inv) (auto simp: with_strong_Inr intro: ctor_copy [OF iw N])
  next
    case (Move_ctor v r)
    show ?thesis using ret [unfolded Move_ctor step.simps]
      by (rule declare_strong_inv) (rule ctor_move [OF iw])
  next
    case (Convert v r off)
    show ?thesis using ret [unfolded Convert step.simps]
      by (rule declare_strong_inv) (auto simp: with_strong_Inr intro: ctor_convert [OF iw N])
  next
    case (Copy_assign v r)
    show ?thesis using ret [unfolded Copy_assign step.simps]
      by (intro up copy_assign_consistent [OF inv N])
  next
    case (Move_assign v r)
    show ?thesis using ret [unfolded Move_assign step.simps]
      by (intro up move_assign_consistent [OF inv])
  next
    case (Swap v r)
    show ?thesis using ret [unfolded Swap step.simps]
      by (intro up swap_consistent [OF inv])
  next
    case (Reset v)
    show ?thesis using ret [unfolded Reset step.simps]
      by (intro up reset_consistent [OF inv])
  next
    case (Reset_raw v off p d ok)
    show ?thesis using ret [unfolded Reset_raw step.simps]
      by (intro up reset_raw_consistent [OF inv])
  next
    case (Dtor v)
    show ?thesis using ret [unfolded Dtor]
      by (intro up dtor_consistent [OF inv])
  next
    case (Weak_default v)
    show ?thesis using ret [unfolded Weak_default step.simps]
      by (rule declare_weak_inv) (use ctor_weak_default [OF iw] in auto)
  next
    case (Weak_copy v r)
    show ?thesis using ret [unfolded Weak_copy step.simps]
      by (rule declare_weak_inv) (auto simp: with_weak_Inr intro: ctor_weak_copy [OF iw N])
  next
    case (Weak_move v r)
    show ?thesis using ret [unfolded Weak_move step.simps]
      by (rule declare_weak_inv) (rule ctor_weak_move [OF iw])
  next
    case (Weak_from_shared v r)
    show ?thesis using ret [unfolded Weak_from_shared step.simps]
      by (rule declare_weak_inv)
        (auto simp: with_strong_Inr intro: ctor_weak_from_shared [OF iw N])
  next
    case (Weak_copy_assign v r)
    show ?thesis using ret [unfolded Weak_copy_assign step.simps]
      by (intro up weak_copy_assign_consistent [OF inv N])
  next
    case (Weak_move_assign v r)
    show ?thesis using ret [unfolded Weak_move_assign step.simps]
      by (intro up weak_move_assign_consistent [OF inv])
  next
    case (Weak_assign_shared v r)
    show ?thesis using ret [unfolded Weak_assign_shared step.simps]
      by (intro up weak_assign_shared_consistent [OF inv N])
  next
    case (Weak_swap v r)
    show ?thesis using ret [unfolded Weak_swap step.simps]
      by (intro up weak_swap_consistent [OF inv])
  next
    case (Lock v w)
    show ?thesis using ret [unfolded Lock step.simps]
      by (rule declare_strong_inv) (auto simp: with_weak_Inr intro: ctor_lock [OF iw N])
  next
    case (Weak_dtor v)
    show ?thesis using ret [unfolded Weak_dtor]
      by (intro up weak_dtor_consistent [OF inv])
  qed
qed

lemma consistent_init: "consistent 0 init"
  by (simp add: consistent_def consistent_with_def accounted_def block_ok_def allocated_def init_def
      holders_def refs_def destroyed_def reclaimed_def) auto

lemma run_consistent:
  "consistent N s \<Longrightarrow> N + length xs < 2 ^ 64 \<Longrightarrow> run quiet s xs = Inr s' \<Longrightarrow>
   consistent (N + length xs) s'"
proof (induction xs arbitrary: N s)
  case Nil
  then show ?case by simp
next
  case (Cons x xs)
  from Cons.prems(3) obtain s1 where s1: "step quiet x s = Inr s1" "run quiet s1 xs = Inr s'"
    by (auto simp: then_do_Inr)
  have "consistent (Suc N) s1"
    using step_consistent [OF Cons.prems(1) _ s1(1)] Cons.prems(2) by simp
  from Cons.IH [OF this _ s1(2)] Cons.prems(2) show ?case by simp
qed

section \<open>Consequences for programs\<close>

lemma high_bits_clear:
  assumes "unat (c :: size_t) < 2 ^ 31" "31 \<le> n"
  shows "\<not> bit c n"
proof -
  have "c < 2 ^ 31" using assms(1) by (simp add: word_less_nat_alt)
  from less_mask_eq [OF this] have "take_bit 31 c = c" by (simp add: take_bit_eq_mask)
  then have "bit c n = bit (take_bit 31 c) n" by simp
  also have "\<dots> = (n < 31 \<and> bit c n)" by (rule bit_take_bit_iff)
  finally show ?thesis using assms(2) by simp
qed

lemma narrow_small:
  assumes "unat (c :: size_t) < 2 ^ 31"
  shows "(scast (ucast c :: c_int) :: size_t) = c"
proof (rule bit_word_eqI)
  fix n assume "n < LENGTH(64)"
  show "bit (scast (ucast c :: c_int) :: size_t) n \<longleftrightarrow> bit c n"
  proof (cases "n < 31")
    case True
    then show ?thesis by (simp add: bit_word_scast_iff bit_word_ucast_iff)
  next
    case False
    then have "\<not> bit c n" "\<not> bit c 31" using high_bits_clear [OF assms] by simp_all
    then show ?thesis by (auto simp: bit_word_scast_iff bit_word_ucast_iff)
  qed
qed

lemma consistent_summary:
  assumes "consistent N s"
  shows "destroyed (trace s) b = (if allocated s b \<and> refs block (strong s) b = {} then 1 else 0)"
    and "reclaimed (trace s) b =
          (if allocated s b \<and> refs block (strong s) b = {} \<and> refs block_w (weak s) b = {}
           then 1 else 0)"
    and "heap s b \<noteq> None \<longleftrightarrow>
          allocated s b \<and> (refs block (strong s) b \<noteq> {} \<or> refs block_w (weak s) b \<noteq> {})"
    and "heap s b = Some cb \<Longrightarrow> unat (counter cb) = card (refs block (strong s) b)"
    and "heap s b = Some cb \<Longrightarrow> unat (weak_counter cb) = card (refs block_w (weak s) b)"
    and "card (refs block (strong s) b) \<le> N"
    and "0 < b \<Longrightarrow> heap s b = None \<Longrightarrow>
          refs block (strong s) b = {} \<and> refs block_w (weak s) b = {}"
proof -
  note a = assms [unfolded consistent_def consistent_with_def]
  have fs: "finite (refs block (strong s) b)" by (rule finite_refs [OF accountedD(1) [OF a]])
  have fw: "finite (refs block_w (weak s) b)" by (rule finite_refs [OF accountedD(2) [OF a]])
  have hs: "holders block {#} (strong s) b = 0 \<longleftrightarrow> refs block (strong s) b = {}"
    using fs by (simp add: holders_def)
  have hw: "holders block_w {#} (weak s) b = 0 \<longleftrightarrow> refs block_w (weak s) b = {}"
    using fw by (simp add: holders_def)
  note ok = accountedD(5) [OF a, of b, unfolded block_ok_def]
  show "destroyed (trace s) b = (if allocated s b \<and> refs block (strong s) b = {} then 1 else 0)"
    using ok hs hw by (cases "heap s b") (auto simp: allocated_def)
  show "reclaimed (trace s) b =
          (if allocated s b \<and> refs block (strong s) b = {} \<and> refs block_w (weak s) b = {}
           then 1 else 0)"
    using ok hs hw by (cases "heap s b") (auto simp: allocated_def)
  show "heap s b \<noteq> None \<longleftrightarrow>
          allocated s b \<and> (refs block (strong s) b \<noteq> {} \<or> refs block_w (weak s) b \<noteq> {})"
    using ok hs hw by (cases "heap s b") (auto simp: allocated_def)
  show "heap s b = Some cb \<Longrightarrow> unat (counter cb) = card (refs block (strong s) b)"
    using ok by (simp add: holders_def)
  show "heap s b = Some cb \<Longrightarrow> unat (weak_counter cb) = card (refs block_w (weak s) b)"
    using ok by (simp add: holders_def)
  show "card (refs block (strong s) b) \<le> N"
    using accounted_holders_le(1) [OF a, of b] by (simp add: holders_def)
  show "0 < b \<Longrightarrow> heap s b = None \<Longrightarrow>
          refs block (strong s) b = {} \<and> refs block_w (weak s) b = {}"
    using ok hs hw by simp
qed

lemma use_count_exact:
  assumes inv: "consistent N s" and N: "N < 2 ^ 31" and p: "strong s v = Some p"
  shows "use_count p s =
           Inr (if block p = 0 then 0 else of_nat (card (refs block (strong s) (block p))))"
proof (cases "block p = 0")
  case True
  then show ?thesis by (simp add: use_count_def)
next
  case False
  have "v \<in> refs block (strong s) (block p)" using p by (simp add: refs_def)
  then have "refs block (strong s) (block p) \<noteq> {}" by auto
  then obtain cb where cb: "heap s (block p) = Some cb"
    using consistent_summary(7) [OF inv, of "block p"] False by (cases "heap s (block p)") auto
  have c: "unat (counter cb) = card (refs block (strong s) (block p))"
    using consistent_summary(4) [OF inv cb] .
  then have "unat (counter cb) < 2 ^ 31" using consistent_summary(6) [OF inv, of "block p"] N by simp
  from narrow_small [OF this] have "scast (ucast (counter cb) :: c_int) = counter cb" .
  moreover have "counter cb = of_nat (card (refs block (strong s) (block p)))"
    using c by (metis of_nat_unat ucast_id)
  ultimately show ?thesis using False cb
    by (simp add: use_count_def get_strong_count_def load_def)
qed

lemma run_copies:
  assumes "strong s 0 = Some p" "0 < block p" "heap s (block p) = Some cb" "0 < k"
    "\<forall>v\<ge>k. strong s v = None"
  shows "run quiet s (map (\<lambda>v. Copy_ctor v 0) [k..<k + n]) =
     Inr (s\<lparr>heap := (heap s)(block p \<mapsto> cb\<lparr>counter := counter cb + of_nat n\<rparr>),
            strong := (\<lambda>v. if k \<le> v \<and> v < k + n then Some p else strong s v)\<rparr>)"
  using assms
proof (induction n arbitrary: s k cb)
  case 0
  have "(\<lambda>v. if k \<le> v \<and> v < k + 0 then Some p else strong s v) = strong s"
    by (auto simp: fun_eq_iff)
  then show ?case using 0 by (simp add: map_upd_triv)
next
  case (Suc n)
  let ?cb1 = "cb\<lparr>counter := counter cb + 1\<rparr>"
  let ?s1 = "s\<lparr>heap := (heap s)(block p \<mapsto> ?cb1), strong := (strong s)(k \<mapsto> p)\<rparr>"
  have st: "step quiet (Copy_ctor k 0) s = Inr ?s1"
    using Suc.prems
    by (simp add: declare_strong_def with_strong_def shared_ptr_copy_def inc_ref_live store_def)
  have l: "[k..<k + Suc n] = k # [Suc k..<Suc k + n]" by (simp add: upt_conv_Cons)
  have ih: "run quiet ?s1 (map (\<lambda>v. Copy_ctor v 0) [Suc k..<Suc k + n]) =
     Inr (?s1\<lparr>heap := (heap ?s1)(block p \<mapsto> ?cb1\<lparr>counter := counter ?cb1 + of_nat n\<rparr>),
            strong := (\<lambda>v. if Suc k \<le> v \<and> v < Suc k + n then Some p else strong ?s1 v)\<rparr>)"
    using Suc.prems by (intro Suc.IH) auto
  have f: "(\<lambda>v. if Suc k \<le> v \<and> v < Suc k + n then Some p else strong ?s1 v) =
        (\<lambda>v. if k \<le> v \<and> v < k + Suc n then Some p else strong s v)"
    by (auto simp: fun_eq_iff)
  have "run quiet s (map (\<lambda>v. Copy_ctor v 0) [k..<k + Suc n]) =
        run quiet ?s1 (map (\<lambda>v. Copy_ctor v 0) [Suc k..<Suc k + n])"
    unfolding l by (simp only: list.map run.simps st then_do_simps)
  also note ih
  also have "?s1\<lparr>heap := (heap ?s1)(block p \<mapsto> ?cb1\<lparr>counter := counter ?cb1 + of_nat n\<rparr>),
            strong := (\<lambda>v. if Suc k \<le> v \<and> v < Suc k + n then Some p else strong ?s1 v)\<rparr> =
     s\<lparr>heap := (heap s)(block p \<mapsto> cb\<lparr>counter := counter cb + of_nat (Suc n)\<rparr>),
            strong := (\<lambda>v. if k \<le> v \<and> v < k + Suc n then Some p else strong s v)\<rparr>"
    unfolding f by (simp add: add.assoc)
  finally show ?case .
qed

lemma owners_after_copies:
  "\<exists>s. run quiet init (Make_shared 0 True # map (\<lambda>v. Copy_ctor v 0) [1..<1 + n]) = Inr s \<and>
       strong s 0 = Some \<lparr>block = 1, ptr = 1\<rparr> \<and>
       refs block (strong s) 1 = {..<1 + n} \<and>
       heap s 1 = Some \<lparr>counter = 1 + of_nat n, weak_counter = 0, kind = Inplace_control_block\<rparr>"
proof -
  let ?p = "\<lparr>block = 1, ptr = 1\<rparr>"
  let ?cb = "\<lparr>counter = 1, weak_counter = 0, kind = Inplace_control_block\<rparr>"
  let ?s0 = "init\<lparr>heap := [1 \<mapsto> ?cb], next_block := 2, strong := [0 \<mapsto> ?p]\<rparr>"
  have st: "step quiet (Make_shared 0 True) init = Inr ?s0"
    by (simp add: declare_strong_def make_shared_def new_block_def inplace_get_def init_def)
  have "run quiet ?s0 (map (\<lambda>v. Copy_ctor v 0) [1..<1 + n]) =
     Inr (?s0\<lparr>heap := (heap ?s0)(block ?p \<mapsto> ?cb\<lparr>counter := counter ?cb + of_nat n\<rparr>),
            strong := (\<lambda>v. if 1 \<le> v \<and> v < 1 + n then Some ?p else strong ?s0 v)\<rparr>)"
    by (rule run_copies) simp_all
  then have "run quiet init (Make_shared 0 True # map (\<lambda>v. Copy_ctor v 0) [1..<1 + n]) =
     Inr (?s0\<lparr>heap := (heap ?s0)(block ?p \<mapsto> ?cb\<lparr>counter := counter ?cb + of_nat n\<rparr>),
            strong := (\<lambda>v. if 1 \<le> v \<and> v < 1 + n then Some ?p else strong ?s0 v)\<rparr>)"
    by (simp only: run.simps st then_do_simps)
  moreover have "refs block (\<lambda>v. if 1 \<le> v \<and> v < 1 + n then Some ?p else strong ?s0 v) 1 = {..<1 + n}"
    by (auto simp: refs_def)
  ultimately show ?thesis by simp
qed

lemma extends_refl [simp]: "extends s s"
  by (simp add: extends_def)

lemma extends_trans: "extends s t \<Longrightarrow> extends t u \<Longrightarrow> extends s u"
  by (auto simp: extends_def)

lemma extends_strong_update [simp]: "extends s (t\<lparr>strong := f\<rparr>) = extends s t"
  by (simp add: extends_def)

lemma extends_weak_update [simp]: "extends s (t\<lparr>weak := f\<rparr>) = extends s t"
  by (simp add: extends_def)

lemma extends_store [simp]: "extends s (store b cb t) = extends s t"
  by (simp add: extends_def store_def)

lemma inc_ref_extends: "inc_ref b s = Inr s' \<Longrightarrow> extends s s'"
  by (auto simp: inc_ref_def split: option.splits)

lemma inc_weak_ref_extends: "inc_weak_ref b s = Inr s' \<Longrightarrow> extends s s'"
  by (auto simp: inc_weak_ref_def split: option.splits)

lemma dec_ref_extends:
  assumes "dec_ref quiet b s = Inr s'"
  shows "extends s s'"
proof (cases "load b s")
  case None
  then show ?thesis using assms by (simp add: dec_ref_def)
next
  case (Some cb)
  then have "0 < b" "heap s b = Some cb" by (auto simp: load_def split: if_splits)
  from dec_ref_live [OF this] assms show ?thesis by (auto simp: extends_def split: if_splits)
qed

lemma dec_weak_ref_extends:
  assumes "dec_weak_ref b s = Inr s'"
  shows "extends s s'"
proof (cases "load b s")
  case None
  then show ?thesis using assms by (simp add: dec_weak_ref_def)
next
  case (Some cb)
  then have "0 < b" "heap s b = Some cb" by (auto simp: load_def split: if_splits)
  from dec_weak_ref_live [OF this] assms show ?thesis by (auto simp: extends_def split: if_splits)
qed

lemma new_block_extends: "new_block k ok s = Inr (b, s') \<Longrightarrow> extends s s'"
  by (auto simp: new_block_def extends_def split: if_splits)

lemma shared_ptr_dtor_extends: "shared_ptr_dtor quiet x s = Inr s' \<Longrightarrow> extends s s'"
  by (auto simp: shared_ptr_dtor_def split: if_splits dest: dec_ref_extends)

lemma weak_ptr_dtor_extends: "weak_ptr_dtor x s = Inr s' \<Longrightarrow> extends s s'"
  by (auto simp: weak_ptr_dtor_def split: if_splits dest: dec_weak_ref_extends)

lemma swap_into_extends: "swap_into tmp v s = Inr (t, s') \<Longrightarrow> extends s s'"
  by (auto simp: swap_into_def split: option.splits)

lemma swap_into_w_extends: "swap_into_w tmp v s = Inr (t, s') \<Longrightarrow> extends s s'"
  by (auto simp: swap_into_w_def split: option.splits)

lemma swap_destroy_extends:
  "then_do (swap_into tmp v s) (\<lambda>(tmp', s2). shared_ptr_dtor quiet tmp' s2) = Inr s' \<Longrightarrow> extends s s'"
  by (auto simp: then_do_Inr dest!: swap_into_extends shared_ptr_dtor_extends intro: extends_trans)

lemma swap_destroy_weak_extends:
  "then_do (swap_into_w tmp v s) (\<lambda>(tmp', s2). weak_ptr_dtor tmp' s2) = Inr s' \<Longrightarrow> extends s s'"
  by (auto simp: then_do_Inr dest!: swap_into_w_extends weak_ptr_dtor_extends intro: extends_trans)

lemma shared_ptr_raw_extends: "shared_ptr_raw quiet off p d ok s = Inr (q, s') \<Longrightarrow> extends s s'"
  by (auto simp: shared_ptr_raw_def noexcept_Inr split: sum.splits failure.splits
      dest: new_block_extends)

lemma make_shared_extends: "make_shared ok s = Inr (q, s') \<Longrightarrow> extends s s'"
  by (auto simp: make_shared_def then_do_Inr dest: new_block_extends)

lemma shared_ptr_alias_extends: "shared_ptr_alias x p s = Inr (q, s') \<Longrightarrow> extends s s'"
  by (auto simp: shared_ptr_alias_def then_do_Inr dest: inc_ref_extends)

lemma shared_ptr_convert_extends: "shared_ptr_convert off x s = Inr (q, s') \<Longrightarrow> extends s s'"
  by (auto simp: shared_ptr_convert_def then_do_Inr dest: inc_ref_extends)

lemma shared_ptr_copy_extends: "shared_ptr_copy x s = Inr (q, s') \<Longrightarrow> extends s s'"
  by (auto simp: shared_ptr_copy_def then_do_Inr split: if_splits dest: inc_ref_extends)

lemma shared_ptr_move_extends: "shared_ptr_move v s = Inr (q, s') \<Longrightarrow> extends s s'"
  by (auto simp: shared_ptr_move_def split: option.splits)

lemma lock_extends: "lock x s = Inr (q, s') \<Longrightarrow> extends s s'"
  by (auto simp: lock_def then_do_Inr split: if_splits dest: inc_ref_extends)

lemma weak_ptr_copy_extends: "weak_ptr_copy x s = Inr (q, s') \<Longrightarrow> extends s s'"
  by (auto simp: weak_ptr_copy_def then_do_Inr split: if_splits dest: inc_weak_ref_extends)

lemma weak_ptr_from_shared_extends: "weak_ptr_from_shared x s = Inr (q, s') \<Longrightarrow> extends s s'"
  by (auto simp: weak_ptr_from_shared_def Let_def then_do_Inr split: if_splits
      dest: inc_weak_ref_extends)

lemma weak_ptr_move_extends: "weak_ptr_move v s = Inr (q, s') \<Longrightarrow> extends s s'"
  by (auto simp: weak_ptr_move_def split: option.splits)

lemma declare_strong_extends:
  "declare_strong v r = Inr s' \<Longrightarrow> (\<And>q s1. r = Inr (q, s1) \<Longrightarrow> extends s s1) \<Longrightarrow> extends s s'"
  by (auto simp: declare_strong_Inr)

lemma declare_weak_extends:
  "declare_weak v r = Inr s' \<Longrightarrow> (\<And>q s1. r = Inr (q, s1) \<Longrightarrow> extends s s1) \<Longrightarrow> extends s s'"
  by (auto simp: declare_weak_Inr)

lemma step_extends: "step quiet x s = Inr s' \<Longrightarrow> extends s s'"
proof (cases x)
  case (Default_ctor v)
  then show "step quiet x s = Inr s' \<Longrightarrow> extends s s'"
    by (auto elim!: declare_strong_extends)
next
  case (Raw_ctor v off p d ok)
  then show "step quiet x s = Inr s' \<Longrightarrow> extends s s'"
    by (auto elim!: declare_strong_extends dest: shared_ptr_raw_extends)
next
  case (Make_shared v ok)
  then show "step quiet x s = Inr s' \<Longrightarrow> extends s s'"
    by (auto elim!: declare_strong_extends dest: make_shared_extends)
next
  case (Alias_ctor v r p)
  then show "step quiet x s = Inr s' \<Longrightarrow> extends s s'"
    by (auto elim!: declare_strong_extends simp: with_strong_Inr dest: shared_ptr_alias_extends)
next
  case (Copy_ctor v r)
  then show "step quiet x s = Inr s' \<Longrightarrow> extends s s'"
    by (auto elim!: declare_strong_extends simp: with_strong_Inr dest: shared_ptr_copy_extends)
next
  case (Move_ctor v r)
  then show "step quiet x s = Inr s' \<Longrightarrow> extends s s'"
    by (auto elim!: declare_strong_extends dest: shared_ptr_move_extends)
next
  case (Convert v r off)
  then show "step quiet x s = Inr s' \<Longrightarrow> extends s s'"
    by (auto elim!: declare_strong_extends simp: with_strong_Inr dest: shared_ptr_convert_extends)
next
  case (Copy_assign v r)
  then show "step quiet x s = Inr s' \<Longrightarrow> extends s s'"
    by (auto simp: shared_ptr_copy_assign_def then_do_Inr [of "shared_ptr_copy _ _"]
        split: if_splits option.splits
        dest!: shared_ptr_copy_extends swap_destroy_extends intro: extends_trans)
next
  case (Move_assign v r)
  then show "step quiet x s = Inr s' \<Longrightarrow> extends s s'"
    by (auto simp: shared_ptr_move_assign_def then_do_Inr [of "shared_ptr_move _ _"]
        dest!: shared_ptr_move_extends swap_destroy_extends intro: extends_trans)
next
  case (Swap v r)
  then show "step quiet x s = Inr s' \<Longrightarrow> extends s s'"
    by (auto simp: shared_ptr_swap_def split: option.splits)
next
  case (Reset v)
  then show "step quiet x s = Inr s' \<Longrightarrow> extends s s'"
    by (auto simp: shared_ptr_reset_def dest!: swap_destroy_extends)
next
  case (Reset_raw v off p d ok)
  then show "step quiet x s = Inr s' \<Longrightarrow> extends s s'"
    by (auto simp: shared_ptr_reset_raw_def noexcept_Inr then_do_Inr [of "shared_ptr_raw quiet _ _ _ _ _"]
        dest!: shared_ptr_raw_extends swap_destroy_extends intro: extends_trans)
next
  case (Dtor v)
  then show "step quiet x s = Inr s' \<Longrightarrow> extends s s'"
    by (auto simp: with_strong_Inr then_do_Inr dest: shared_ptr_dtor_extends)
next
  case (Weak_default v)
  then show "step quiet x s = Inr s' \<Longrightarrow> extends s s'"
    by (auto elim!: declare_weak_extends)
next
  case (Weak_copy v r)
  then show "step quiet x s = Inr s' \<Longrightarrow> extends s s'"
    by (auto elim!: declare_weak_extends simp: with_weak_Inr dest: weak_ptr_copy_extends)
next
  case (Weak_move v r)
  then show "step quiet x s = Inr s' \<Longrightarrow> extends s s'"
    by (auto elim!: declare_weak_extends dest: weak_ptr_move_extends)
next
  case (Weak_from_shared v r)
  then show "step quiet x s = Inr s' \<Longrightarrow> extends s s'"
    by (auto elim!: declare_weak_extends simp: with_strong_Inr dest: weak_ptr_from_shared_extends)
next
  case (Weak_copy_assign v r)
  then show "step quiet x s = Inr s' \<Longrightarrow> extends s s'"
    by (auto simp: weak_ptr_copy_assign_def then_do_Inr [of "weak_ptr_copy _ _"]
        split: if_splits option.splits
        dest!: weak_ptr_copy_extends swap_destroy_weak_extends intro: extends_trans)
next
  case (Weak_move_assign v r)
  then show "step quiet x s = Inr s' \<Longrightarrow> extends s s'"
    by (auto simp: weak_ptr_move_assign_def then_do_Inr [of "weak_ptr_move _ _"]
        dest!: weak_ptr_move_extends swap_destroy_weak_extends intro: extends_trans)
next
  case (Weak_assign_shared v r)
  then show "step quiet x s = Inr s' \<Longrightarrow> extends s s'"
    by (auto simp: weak_ptr_assign_shared_def then_do_Inr [of "weak_ptr_from_shared _ _"]
        split: option.splits
        dest!: weak_ptr_from_shared_extends swap_destroy_weak_extends intro: extends_trans)
next
  case (Weak_swap v r)
  then show "step quiet x s = Inr s' \<Longrightarrow> extends s s'"
    by (auto simp: weak_ptr_swap_def split: option.splits)
next
  case (Lock v w)
  then show "step quiet x s = Inr s' \<Longrightarrow> extends s s'"
    by (auto elim!: declare_strong_extends simp: with_weak_Inr dest: lock_extends)
next
  case (Weak_dtor v)
  then show "step quiet x s = Inr s' \<Longrightarrow> extends s s'"
    by (auto simp: with_weak_Inr then_do_Inr dest: weak_ptr_dtor_extends)
qed


lemma run_append:
  "run quiet s (xs @ ys) = then_do (run quiet s xs) (\<lambda>s'. run quiet s' ys)"
  by (induction xs arbitrary: s) (auto simp: then_do_def split: sum.splits)

lemma extends_destroyed: "extends s s' \<Longrightarrow> destroyed (trace s) b \<le> destroyed (trace s') b"
  by (auto simp: extends_def)

lemma extends_allocated: "extends s s' \<Longrightarrow> allocated s b \<Longrightarrow> allocated s' b"
  by (auto simp: extends_def allocated_def)

lemma run_init_consistent:
  assumes "run quiet init xs = Inr s" "length xs < 2 ^ 64"
  shows "consistent (length xs) s"
  using run_consistent [OF consistent_init _ assms(1)] assms(2) by simp

lemma run_snoc: "run quiet s xs = Inr t \<Longrightarrow> run quiet s (xs @ [x]) = step quiet x t"
  by (simp add: run_append then_do_def split: sum.splits)

lemmas eval_defs = declare_strong_def declare_weak_def with_strong_def with_weak_def
  shared_ptr_default_def shared_ptr_raw_def make_shared_def inplace_get_def new_block_def
  shared_ptr_alias_def shared_ptr_copy_def shared_ptr_move_def shared_ptr_dtor_def
  shared_ptr_convert_def static_cast_def swap_into_def shared_ptr_swap_def
  shared_ptr_copy_assign_def shared_ptr_move_assign_def shared_ptr_reset_def
  shared_ptr_reset_raw_def weak_ptr_default_def weak_ptr_copy_def weak_ptr_from_shared_def
  weak_ptr_move_def weak_ptr_dtor_def swap_into_w_def weak_ptr_swap_def
  weak_ptr_copy_assign_def weak_ptr_move_assign_def weak_ptr_assign_shared_def lock_def
  inc_ref_def inc_weak_ref_def dec_ref_def dec_weak_ref_def delete_object_def delete_this_def
  object_deleted_def get_strong_count_def use_count_def load_def store_def emit_def init_def
  call_user_def quiet_def

lemma consistent_strong_var_live:
  assumes ct: "consistent N s" and N: "Suc N < 2 ^ 64" and x: "strong s v = Some x"
    and nz: "block x \<noteq> 0"
  shows "\<exists>cb. heap s (block x) = Some cb \<and> counter cb \<noteq> 0 \<and>
           unat (counter cb) = card (refs block (strong s) (block x)) \<and>
           unat (counter cb + 1) = Suc (unat (counter cb))"
proof -
  have fin: "finite (refs block (strong s) (block x))"
    using ct by (auto simp: consistent_def consistent_with_def accounted_def intro: finite_refs)
  have "v \<in> refs block (strong s) (block x)" using x by (simp add: refs_def)
  then have ne: "refs block (strong s) (block x) \<noteq> {}" by auto
  then obtain cb where cb: "heap s (block x) = Some cb"
    using consistent_summary(7) [OF ct, of "block x"] nz by (cases "heap s (block x)") auto
  have c: "unat (counter cb) = card (refs block (strong s) (block x))"
    using consistent_summary(4) [OF ct cb] .
  then have "unat (counter cb) \<noteq> 0" using ne fin by simp
  then have "counter cb \<noteq> 0" by (auto simp: unat_eq_0)
  moreover have "unat (counter cb) < 2 ^ 64 - 1"
    using c consistent_summary(6) [OF ct, of "block x"] N by simp
  ultimately show ?thesis using cb c by (simp add: unat_inc)
qed

text \<open>
  With quiet user code, a block is freed exactly once, by the release that leaves both
  counters at 0, and in every state a program reaches it is live exactly while a strong
  or weak pointer holds it.
\<close>

lemma block_reclaimed_when_unowned:
  "(0 < b \<and> heap s b = Some cb \<longrightarrow>
      dec_ref quiet b s =
        Inr (if counter cb = 1
             then if weak_counter cb = 0
                  then s\<lparr>heap := (heap s)(b := None),
                         trace := trace s @ [Delete_object b, payload_event b cb, Delete_this b]\<rparr>
                  else s\<lparr>heap := (heap s)(b \<mapsto> cb\<lparr>counter := 0\<rparr>),
                         trace := trace s @ [Delete_object b, payload_event b cb]\<rparr>
             else s\<lparr>heap := (heap s)(b \<mapsto> cb\<lparr>counter := counter cb - 1\<rparr>)\<rparr>) \<and>
      dec_weak_ref b s =
        Inr (if weak_counter cb = 1 \<and> counter cb = 0
             then s\<lparr>heap := (heap s)(b := None), trace := trace s @ [Delete_this b]\<rparr>
             else s\<lparr>heap := (heap s)(b \<mapsto> cb\<lparr>weak_counter := weak_counter cb - 1\<rparr>)\<rparr>)) \<and>
   (run quiet init xs = Inr t \<and> length xs < 2 ^ 64 \<longrightarrow>
      reclaimed (trace t) c =
        (if allocated t c \<and> refs block (strong t) c = {} \<and> refs block_w (weak t) c = {}
         then 1 else 0) \<and>
      (heap t c \<noteq> None \<longleftrightarrow>
         allocated t c \<and> (refs block (strong t) c \<noteq> {} \<or> refs block_w (weak t) c \<noteq> {})) \<and>
      (allocated t c \<and> refs block (strong t) c = {} \<and> refs block_w (weak t) c \<noteq> {} \<longrightarrow>
         destroyed (trace t) c = 1 \<and> reclaimed (trace t) c = 0 \<and>
         (\<exists>cb'. heap t c = Some cb' \<and> counter cb' = 0 \<and>
                unat (weak_counter cb') = card (refs block_w (weak t) c))))"
proof -
  have blk: "dec_ref quiet b s =
        Inr (if counter cb = 1
             then if weak_counter cb = 0
                  then s\<lparr>heap := (heap s)(b := None),
                         trace := trace s @ [Delete_object b, payload_event b cb, Delete_this b]\<rparr>
                  else s\<lparr>heap := (heap s)(b \<mapsto> cb\<lparr>counter := 0\<rparr>),
                         trace := trace s @ [Delete_object b, payload_event b cb]\<rparr>
             else s\<lparr>heap := (heap s)(b \<mapsto> cb\<lparr>counter := counter cb - 1\<rparr>)\<rparr>) \<and>
      dec_weak_ref b s =
        Inr (if weak_counter cb = 1 \<and> counter cb = 0
             then s\<lparr>heap := (heap s)(b := None), trace := trace s @ [Delete_this b]\<rparr>
             else s\<lparr>heap := (heap s)(b \<mapsto> cb\<lparr>weak_counter := weak_counter cb - 1\<rparr>)\<rparr>)"
    if "0 < b \<and> heap s b = Some cb"
    using dec_ref_live [of b s cb] dec_weak_ref_live [of b s cb] that by blast
  have prog: "reclaimed (trace t) c =
        (if allocated t c \<and> refs block (strong t) c = {} \<and> refs block_w (weak t) c = {}
         then 1 else 0) \<and>
      (heap t c \<noteq> None \<longleftrightarrow>
         allocated t c \<and> (refs block (strong t) c \<noteq> {} \<or> refs block_w (weak t) c \<noteq> {})) \<and>
      (allocated t c \<and> refs block (strong t) c = {} \<and> refs block_w (weak t) c \<noteq> {} \<longrightarrow>
         destroyed (trace t) c = 1 \<and> reclaimed (trace t) c = 0 \<and>
         (\<exists>cb'. heap t c = Some cb' \<and> counter cb' = 0 \<and>
                unat (weak_counter cb') = card (refs block_w (weak t) c)))"
    if "run quiet init xs = Inr t \<and> length xs < 2 ^ 64"
  proof -
    have ct: "consistent (length xs) t" using that by (simp add: run_init_consistent)
    note sm = consistent_summary [OF ct, of c]
    have "destroyed (trace t) c = 1 \<and> reclaimed (trace t) c = 0 \<and>
         (\<exists>cb'. heap t c = Some cb' \<and> counter cb' = 0 \<and>
                unat (weak_counter cb') = card (refs block_w (weak t) c))"
      if own: "allocated t c \<and> refs block (strong t) c = {} \<and> refs block_w (weak t) c \<noteq> {}"
    proof -
      obtain cb' where cb': "heap t c = Some cb'" using sm(3) own by auto
      have "unat (counter cb') = 0" using sm(4) [OF cb'] own by simp
      then have "counter cb' = 0" by (simp add: unat_eq_0)
      then show ?thesis using sm(1,2) sm(5) [OF cb'] own cb' by simp
    qed
    then show ?thesis using sm(2,3) by blast
  qed
  show ?thesis using blk prog by blast
qed

lemma block_reclaimed_when_unowned_example:
  "run quiet init [Raw_ctor 0 0 100 7 True, Weak_from_shared 5 0, Dtor 0] =
     Inr \<lparr>heap = [1 \<mapsto> \<lparr>counter = 0, weak_counter = 1, kind = Regular_control_block 100 7\<rparr>],
          next_block = 2, trace = [Delete_object 1, Block_deleter_call 1 7 100], strong = Map.empty,
          weak = [5 \<mapsto> \<lparr>block_w = 1, ptr_w = 100\<rparr>]\<rparr> \<and>
   destroyed [Delete_object 1, Block_deleter_call 1 7 100] 1 = 1 \<and>
   reclaimed [Delete_object 1, Block_deleter_call 1 7 100] 1 = 0 \<and>
   dec_weak_ref 1
     \<lparr>heap = [1 \<mapsto> \<lparr>counter = 0, weak_counter = 1, kind = Regular_control_block 100 7\<rparr>],
      next_block = 2, trace = [Delete_object 1, Block_deleter_call 1 7 100], strong = Map.empty,
      weak = [5 \<mapsto> \<lparr>block_w = 1, ptr_w = 100\<rparr>]\<rparr> =
     Inr \<lparr>heap = Map.empty, next_block = 2,
          trace = [Delete_object 1, Block_deleter_call 1 7 100, Delete_this 1], strong = Map.empty,
          weak = [5 \<mapsto> \<lparr>block_w = 1, ptr_w = 100\<rparr>]\<rparr>"
  using block_reclaimed_when_unowned
    [where xs = "[Raw_ctor 0 0 100 7 True, Weak_from_shared 5 0, Dtor 0]"
       and t = "\<lparr>heap = [1 \<mapsto> \<lparr>counter = 0, weak_counter = 1, kind = Regular_control_block 100 7\<rparr>],
          next_block = 2, trace = [Delete_object 1, Block_deleter_call 1 7 100], strong = Map.empty,
          weak = [5 \<mapsto> \<lparr>block_w = 1, ptr_w = 100\<rparr>]\<rparr>"
       and c = 1 and b = 1
       and s = "\<lparr>heap = [1 \<mapsto> \<lparr>counter = 0, weak_counter = 1, kind = Regular_control_block 100 7\<rparr>],
          next_block = 2, trace = [Delete_object 1, Block_deleter_call 1 7 100], strong = Map.empty,
          weak = [5 \<mapsto> \<lparr>block_w = 1, ptr_w = 100\<rparr>]\<rparr>"
       and cb = "\<lparr>counter = 0, weak_counter = 1, kind = Regular_control_block 100 7\<rparr>"]
  by (simp add: eval_defs allocated_def refs_def)


lemma convert_reachable:
  assumes "run quiet init xs = Inr s" "Suc (length xs) < 2 ^ 64" "strong s v = Some x" "block x \<noteq> 0"
  shows "\<exists>cb. heap s (block x) = Some cb \<and> counter cb \<noteq> 0 \<and>
           shared_ptr_convert off x s =
             Inr (\<lparr>block = block x, ptr = static_cast off (ptr x)\<rparr>,
                  store (block x) (cb\<lparr>counter := counter cb + 1\<rparr>) s) \<and>
           unat (counter cb + 1) = Suc (unat (counter cb)) \<and>
           (strong s v' = None \<longrightarrow>
              step quiet (Convert v' v off) s =
                Inr ((store (block x) (cb\<lparr>counter := counter cb + 1\<rparr>) s)
                       \<lparr>strong := (strong s)(v' \<mapsto> \<lparr>block = block x, ptr = static_cast off (ptr x)\<rparr>)\<rparr>) \<and>
              refs block ((strong s)(v' \<mapsto> \<lparr>block = block x, ptr = static_cast off (ptr x)\<rparr>)) (block x) =
                insert v' (refs block (strong s) (block x)) \<and>
              v' \<notin> refs block (strong s) (block x))"
proof -
  have ct: "consistent (length xs) s" using assms(1,2) by (intro run_init_consistent) simp_all
  from consistent_strong_var_live [OF ct assms(2,3,4)] obtain cb
    where cb: "heap s (block x) = Some cb" "counter cb \<noteq> 0"
      "unat (counter cb + 1) = Suc (unat (counter cb))" by blast
  have conv: "shared_ptr_convert off x s =
             Inr (\<lparr>block = block x, ptr = static_cast off (ptr x)\<rparr>,
                  store (block x) (cb\<lparr>counter := counter cb + 1\<rparr>) s)"
    using cb(1) assms(4) by (simp add: shared_ptr_convert_def inc_ref_live)
  have stp: "step quiet (Convert v' v off) s =
          Inr ((store (block x) (cb\<lparr>counter := counter cb + 1\<rparr>) s)
                 \<lparr>strong := (strong s)(v' \<mapsto> \<lparr>block = block x, ptr = static_cast off (ptr x)\<rparr>)\<rparr>)"
    if "strong s v' = None"
    using that assms(3) conv by (simp add: declare_strong_def with_strong_def store_def)
  have rf: "refs block ((strong s)(v' \<mapsto> \<lparr>block = block x, ptr = static_cast off (ptr x)\<rparr>)) (block x) =
                insert v' (refs block (strong s) (block x))"
    by (simp add: refs_put)
  have nin: "v' \<notin> refs block (strong s) (block x)" if "strong s v' = None"
    using that by (simp add: refs_def)
  show ?thesis
    by (rule exI [of _ cb]) (use cb conv stp rf nin in simp)
qed

lemma inc_ref_strong: "inc_ref b s = Inr s' \<Longrightarrow> strong s' = strong s"
  by (auto simp: inc_ref_def store_def split: option.splits)

lemma inc_ref_nonnull: "inc_ref b s = Inr s' \<Longrightarrow> 0 < b"
  by (cases "b = 0") simp_all

lemma inc_weak_ref_strong: "inc_weak_ref b s = Inr s' \<Longrightarrow> strong s' = strong s"
  by (auto simp: inc_weak_ref_def store_def split: option.splits)

lemma dec_ref_strong:
  assumes "dec_ref quiet b s = Inr s'"
  shows "strong s' = strong s"
proof (cases "load b s")
  case None
  then show ?thesis using assms by (simp add: dec_ref_def)
next
  case (Some cb)
  then have "0 < b" "heap s b = Some cb" by (auto simp: load_def split: if_splits)
  from dec_ref_live [OF this] assms show ?thesis by (auto split: if_splits)
qed

lemma dec_weak_ref_strong:
  assumes "dec_weak_ref b s = Inr s'"
  shows "strong s' = strong s"
proof (cases "load b s")
  case None
  then show ?thesis using assms by (simp add: dec_weak_ref_def)
next
  case (Some cb)
  then have "0 < b" "heap s b = Some cb" by (auto simp: load_def split: if_splits)
  from dec_weak_ref_live [OF this] assms show ?thesis by (auto split: if_splits)
qed

lemma shared_ptr_dtor_strong: "shared_ptr_dtor quiet x s = Inr s' \<Longrightarrow> strong s' = strong s"
  by (auto simp: shared_ptr_dtor_def split: if_splits dest: dec_ref_strong)

lemma weak_ptr_dtor_strong: "weak_ptr_dtor x s = Inr s' \<Longrightarrow> strong s' = strong s"
  by (auto simp: weak_ptr_dtor_def split: if_splits dest: dec_weak_ref_strong)

lemma swap_destroy_strong:
  "then_do (swap_into tmp v s) (\<lambda>(tmp', s2). shared_ptr_dtor quiet tmp' s2) = Inr s' \<Longrightarrow>
   strong s' = (strong s)(v \<mapsto> tmp)"
  by (auto simp: then_do_Inr swap_into_def split: option.splits dest!: shared_ptr_dtor_strong)

lemma swap_destroy_weak_strong:
  "then_do (swap_into_w tmp v s) (\<lambda>(tmp', s2). weak_ptr_dtor tmp' s2) = Inr s' \<Longrightarrow>
   strong s' = strong s"
  by (auto simp: then_do_Inr swap_into_w_def split: option.splits dest!: weak_ptr_dtor_strong)

lemma null_together_put:
  "null_together s \<Longrightarrow> strong s' = (strong s)(v \<mapsto> q) \<Longrightarrow> (block q = 0 \<longrightarrow> ptr q = 0) \<Longrightarrow>
   null_together s'"
  by (auto simp: null_together_def)

lemma null_together_same: "null_together s \<Longrightarrow> strong s' = strong s \<Longrightarrow> null_together s'"
  by (auto simp: null_together_def)

lemma null_together_var:
  "null_together s \<Longrightarrow> strong s v = Some x \<Longrightarrow> block x = 0 \<longrightarrow> ptr x = 0"
  by (auto simp: null_together_def)

lemma ctor_null_together:
  assumes "null_together s" "0 < next_block s"
  shows "shared_ptr_raw quiet off p d ok s = Inr (q, s1) \<Longrightarrow>
           strong s1 = strong s \<and> block q \<noteq> 0"
    and "make_shared ok s = Inr (q, s1) \<Longrightarrow> strong s1 = strong s \<and> block q \<noteq> 0"
    and "shared_ptr_alias x a s = Inr (q, s1) \<Longrightarrow> strong s1 = strong s \<and> block q \<noteq> 0"
    and "shared_ptr_convert off x s = Inr (q, s1) \<Longrightarrow> strong s1 = strong s \<and> block q \<noteq> 0"
    and "shared_ptr_copy x s = Inr (q, s1) \<Longrightarrow> strong s1 = strong s \<and> q = x"
    and "lock y s = Inr (q, s1) \<Longrightarrow> strong s1 = strong s \<and> (block q = 0 \<longrightarrow> ptr q = 0)"
    and "shared_ptr_move v s = Inr (q, s1) \<Longrightarrow>
           strong s v = Some q \<and> strong s1 = (strong s)(v \<mapsto> \<lparr>block = 0, ptr = 0\<rparr>)"
  using assms(2)
  by (auto simp: shared_ptr_raw_def make_shared_def new_block_def shared_ptr_alias_def
      shared_ptr_convert_def shared_ptr_copy_def lock_def shared_ptr_move_def
      shared_ptr_default_def noexcept_Inr then_do_Inr
      split: if_splits option.splits sum.splits failure.splits
      dest: inc_ref_strong inc_ref_nonnull)

lemma weak_ctor_strong:
  shows "weak_ptr_copy y s = Inr (q, s1) \<Longrightarrow> strong s1 = strong s"
    and "weak_ptr_from_shared x s = Inr (q, s1) \<Longrightarrow> strong s1 = strong s"
    and "weak_ptr_move v s = Inr (q, s1) \<Longrightarrow> strong s1 = strong s"
  by (auto simp: weak_ptr_copy_def weak_ptr_from_shared_def weak_ptr_move_def Let_def
      then_do_Inr split: if_splits option.splits dest: inc_weak_ref_strong)

lemma declare_strong_null_together:
  assumes "declare_strong v r = Inr s'"
    and "\<And>q s1. r = Inr (q, s1) \<Longrightarrow> null_together s1 \<and> (block q = 0 \<longrightarrow> ptr q = 0)"
  shows "null_together s'"
  using assms by (auto simp: declare_strong_Inr null_together_def split: if_splits)

lemma declare_weak_null_together:
  assumes "declare_weak v r = Inr s'"
    and "\<And>q s1. r = Inr (q, s1) \<Longrightarrow> null_together s1"
  shows "null_together s'"
  using assms by (auto simp: declare_weak_Inr null_together_def)

lemma step_null_together:
  assumes nt: "null_together s" and n: "0 < next_block s" and st: "step quiet x s = Inr s'"
  shows "null_together s'"
proof (cases x)
  case (Default_ctor v)
  show ?thesis using st [unfolded Default_ctor step.simps]
    by (rule declare_strong_null_together) (use nt in \<open>simp add: shared_ptr_default_def\<close>)
next
  case (Raw_ctor v off p d ok)
  show ?thesis using st [unfolded Raw_ctor step.simps]
    by (rule declare_strong_null_together)
      (use nt in \<open>auto dest!: ctor_null_together(1) [OF nt n] elim: null_together_same\<close>)
next
  case (Make_shared v ok)
  show ?thesis using st [unfolded Make_shared step.simps]
    by (rule declare_strong_null_together)
      (use nt in \<open>auto dest!: ctor_null_together(2) [OF nt n] elim: null_together_same\<close>)
next
  case (Alias_ctor v r p)
  show ?thesis using st [unfolded Alias_ctor step.simps]
    by (rule declare_strong_null_together)
      (use nt in \<open>auto dest!: ctor_null_together(3) [OF nt n] simp: with_strong_Inr elim: null_together_same\<close>)
next
  case (Copy_ctor v r)
  show ?thesis using st [unfolded Copy_ctor step.simps]
    by (rule declare_strong_null_together)
      (use nt in \<open>auto dest!: ctor_null_together(5) [OF nt n] simp: with_strong_Inr elim: null_together_same dest: null_together_var\<close>)
next
  case (Move_ctor v r)
  show ?thesis using st [unfolded Move_ctor step.simps]
    by (rule declare_strong_null_together)
      (use nt in \<open>auto dest!: ctor_null_together(7) [OF nt n] simp: null_together_def split: if_splits\<close>)
next
  case (Convert v r off)
  show ?thesis using st [unfolded Convert step.simps]
    by (rule declare_strong_null_together)
      (use nt in \<open>auto dest!: ctor_null_together(4) [OF nt n] simp: with_strong_Inr elim: null_together_same\<close>)
next
  case (Copy_assign v r)
  show ?thesis
  proof (cases "v = r")
    case True
    then show ?thesis using st nt Copy_assign by (simp add: shared_ptr_copy_assign_def)
  next
    case False
    then obtain y tmp s1 where y: "strong s r = Some y"
      and c: "shared_ptr_copy y s = Inr (tmp, s1)"
      and tail: "then_do (swap_into tmp v s1) (\<lambda>(tmp', s2). shared_ptr_dtor quiet tmp' s2) = Inr s'"
      using st Copy_assign
      by (auto simp: shared_ptr_copy_assign_def then_do_Inr [of "shared_ptr_copy _ _"]
          split: option.splits)
    from ctor_null_together(5) [OF nt n c] swap_destroy_strong [OF tail]
    have eq: "strong s' = (strong s)(v \<mapsto> y)" by simp
    show ?thesis by (rule null_together_put [OF nt eq]) (rule null_together_var [OF nt y])
  qed
next
  case (Move_assign v r)
  then obtain tmp s1 where c: "shared_ptr_move r s = Inr (tmp, s1)"
    and tail: "then_do (swap_into tmp v s1) (\<lambda>(tmp', s2). shared_ptr_dtor quiet tmp' s2) = Inr s'"
    using st by (auto simp: shared_ptr_move_assign_def then_do_Inr [of "shared_ptr_move _ _"])
  from ctor_null_together(7) [OF nt n c] swap_destroy_strong [OF tail]
  have "strong s r = Some tmp" "strong s' = (strong s)(r \<mapsto> \<lparr>block = 0, ptr = 0\<rparr>, v \<mapsto> tmp)"
    by simp_all
  then show ?thesis using nt by (auto simp: null_together_def)
next
  case (Swap v r)
  then show ?thesis using st nt
    by (auto simp: shared_ptr_swap_def null_together_def split: option.splits if_splits)
next
  case (Reset v)
  then have eq: "strong s' = (strong s)(v \<mapsto> shared_ptr_default)"
    using st by (auto simp: shared_ptr_reset_def dest: swap_destroy_strong)
  show ?thesis by (rule null_together_put [OF nt eq]) (simp add: shared_ptr_default_def)
next
  case (Reset_raw v off p d ok)
  then obtain tmp s1 where c: "shared_ptr_raw quiet off p d ok s = Inr (tmp, s1)"
    and tail: "then_do (swap_into tmp v s1) (\<lambda>(tmp', s2). shared_ptr_dtor quiet tmp' s2) = Inr s'"
    using st
    by (auto simp: shared_ptr_reset_raw_def noexcept_Inr then_do_Inr [of "shared_ptr_raw _ _ _ _ _ _"])
  from ctor_null_together(1) [OF nt n c] swap_destroy_strong [OF tail]
  have "strong s' = (strong s)(v \<mapsto> tmp)" "block tmp \<noteq> 0" by simp_all
  then show ?thesis using nt by (auto simp: null_together_def)
next
  case (Dtor v)
  then show ?thesis using st nt
    by (auto simp: with_strong_Inr then_do_Inr null_together_def dest!: shared_ptr_dtor_strong
        split: if_splits)
next
  case (Weak_default v)
  show ?thesis using st [unfolded Weak_default step.simps]
    by (rule declare_weak_null_together) (use nt in simp)
next
  case (Weak_copy v r)
  show ?thesis using st [unfolded Weak_copy step.simps]
    by (rule declare_weak_null_together)
      (use nt in \<open>auto simp: with_weak_Inr dest!: weak_ctor_strong(1) elim: null_together_same\<close>)
next
  case (Weak_move v r)
  show ?thesis using st [unfolded Weak_move step.simps]
    by (rule declare_weak_null_together)
      (use nt in \<open>auto dest!: weak_ctor_strong(3) elim: null_together_same\<close>)
next
  case (Weak_from_shared v r)
  show ?thesis using st [unfolded Weak_from_shared step.simps]
    by (rule declare_weak_null_together)
      (use nt in \<open>auto simp: with_strong_Inr dest!: weak_ctor_strong(2) elim: null_together_same\<close>)
next
  case (Weak_copy_assign v r)
  then show ?thesis using st nt
    by (auto simp: weak_ptr_copy_assign_def then_do_Inr [of "weak_ptr_copy _ _"] null_together_def
        split: if_splits option.splits dest!: weak_ctor_strong(1) swap_destroy_weak_strong)
next
  case (Weak_move_assign v r)
  then show ?thesis using st nt
    by (auto simp: weak_ptr_move_assign_def then_do_Inr [of "weak_ptr_move _ _"] null_together_def
        dest!: weak_ctor_strong(3) swap_destroy_weak_strong)
next
  case (Weak_assign_shared v r)
  then show ?thesis using st nt
    by (auto simp: weak_ptr_assign_shared_def then_do_Inr [of "weak_ptr_from_shared _ _"]
        null_together_def split: option.splits dest!: weak_ctor_strong(2) swap_destroy_weak_strong)
next
  case (Weak_swap v r)
  then show ?thesis using st nt
    by (auto simp: weak_ptr_swap_def null_together_def split: option.splits)
next
  case (Lock v w)
  show ?thesis using st [unfolded Lock step.simps]
    by (rule declare_strong_null_together)
      (use nt in \<open>auto dest!: ctor_null_together(6) [OF nt n] simp: with_weak_Inr elim: null_together_same\<close>)
next
  case (Weak_dtor v)
  then show ?thesis using st nt
    by (auto simp: with_weak_Inr then_do_Inr null_together_def dest!: weak_ptr_dtor_strong)
qed

lemma run_null_together:
  "null_together s \<Longrightarrow> 0 < next_block s \<Longrightarrow> run quiet s xs = Inr s' \<Longrightarrow> null_together s'"
proof (induction xs arbitrary: s)
  case Nil
  then show ?case by simp
next
  case (Cons x xs)
  from Cons.prems(3) obtain s1 where s1: "step quiet x s = Inr s1" "run quiet s1 xs = Inr s'"
    by (auto simp: then_do_Inr)
  have "0 < next_block s1" using step_extends [OF s1(1)] Cons.prems(2) by (simp add: extends_def)
  then show ?case using Cons.IH [OF step_null_together [OF Cons.prems(1,2) s1(1)] _ s1(2)] by simp
qed

lemma run_init_null_together: "run quiet init xs = Inr s \<Longrightarrow> null_together s"
  by (rule run_null_together [of init]) (simp_all add: null_together_def init_def)

section \<open>Sequences of counter operations\<close>

text \<open>
  What \<^verbatim>\<open>dec_ref\<close> does for user code that leaves the block alone, and the two phases of
  a sequence of counter operations on one block: before the payload is destroyed the
  strong counter is not 0; afterwards it is 0, or a \<^verbatim>\<open>dec_ref\<close> has wrapped it around and
  it is larger than the number of operations still to come.
\<close>

lemma dec_ref_other:
  assumes "0 < b" "heap s b = Some cb" "counter cb \<noteq> 1"
  shows "dec_ref user b s = Inr (store b (cb\<lparr>counter := counter cb - 1\<rparr>) s)"
proof -
  have "counter cb - 1 \<noteq> 0" using assms(3) by simp
  then show ?thesis using assms by (simp add: dec_ref_def load_def store_def)
qed

lemma dec_ref_last:
  assumes lv: "leaves_block user b" and b: "0 < b" and cb: "heap s b = Some cb"
    and one: "counter cb = 1"
  shows "\<exists>s'. dec_ref user b s = Inr s' \<and>
           heap s' b = (if weak_counter cb = 0 then None else Some (cb\<lparr>counter := 0\<rparr>)) \<and>
           destroyed (trace s') b = Suc (destroyed (trace s) b)"
proof -
  let ?s1 = "emit [Delete_object b, payload_event b cb] (store b (cb\<lparr>counter := 0\<rparr>) s)"
  obtain s2 where s2: "user (payload_event b cb) ?s1 = Inr s2" "heap s2 b = heap ?s1 b"
    "destroyed (trace s2) b = destroyed (trace ?s1) b"
    using lv unfolding leaves_block_def by blast
  have h: "heap s2 b = Some (cb\<lparr>counter := 0\<rparr>)" using s2(2) by (simp add: emit_def store_def)
  have d: "destroyed (trace s2) b = Suc (destroyed (trace s) b)"
    using s2(3) by (simp add: emit_def store_def)
  have del: "delete_object user b (store b (cb\<lparr>counter := 0\<rparr>) s) = Inr s2"
    using b s2(1)
    by (simp add: delete_object_def load_def store_def call_user_def payload_event_def emit_def
        split: block_kind.splits)
  show ?thesis
    using b cb one del h d
    by (simp add: dec_ref_def load_def delete_this_def emit_def)
qed

lemma dec_ref_leaves:
  assumes lv: "leaves_block user b" and b: "0 < b" and cb: "heap s b = Some cb"
  shows "\<exists>s'. dec_ref user b s = Inr s' \<and>
           heap s' b = (if counter cb = 1 \<and> weak_counter cb = 0 then None
                        else Some (cb\<lparr>counter := counter cb - 1\<rparr>)) \<and>
           destroyed (trace s') b = destroyed (trace s) b + (if counter cb = 1 then 1 else 0)"
proof (cases "counter cb = 1")
  case True
  then show ?thesis using dec_ref_last [OF lv b cb True] by auto
next
  case False
  then show ?thesis using dec_ref_other [OF b cb False] by (simp add: store_def)
qed

lemma block_step_effect:
  assumes lv: "leaves_block user b" and b: "0 < b" and cb: "heap s b = Some cb"
  shows "\<exists>s'. block_step user b x s = Inr s' \<and>
           heap s' b =
             (case x of
                Inc_ref \<Rightarrow> Some (cb\<lparr>counter := counter cb + 1\<rparr>)
              | Dec_ref \<Rightarrow> if counter cb = 1 \<and> weak_counter cb = 0 then None
                           else Some (cb\<lparr>counter := counter cb - 1\<rparr>)
              | Inc_weak_ref \<Rightarrow> Some (cb\<lparr>weak_counter := weak_counter cb + 1\<rparr>)
              | Dec_weak_ref \<Rightarrow> if weak_counter cb = 1 \<and> counter cb = 0 then None
                                else Some (cb\<lparr>weak_counter := weak_counter cb - 1\<rparr>)) \<and>
           destroyed (trace s') b =
             destroyed (trace s) b + (if x = Dec_ref \<and> counter cb = 1 then 1 else 0)"
proof (cases x)
  case Inc_ref
  then show ?thesis using b cb by (simp add: inc_ref_live store_def)
next
  case Dec_ref
  then show ?thesis using dec_ref_leaves [OF lv b cb] by simp
next
  case Inc_weak_ref
  then show ?thesis using b cb by (simp add: inc_weak_ref_live store_def)
next
  case Dec_weak_ref
  then show ?thesis using b cb by (simp add: dec_weak_ref_live)
qed

lemma block_step_freed: "0 < b \<Longrightarrow> heap s b = None \<Longrightarrow> block_step user b x s = Inl Undefined"
  by (cases x) (simp_all add: inc_ref_def dec_ref_def inc_weak_ref_def dec_weak_ref_def load_def)

lemma unat_inc_nonzero: "(c :: size_t) + 1 \<noteq> 0 \<Longrightarrow> unat (c + 1) = Suc (unat c)"
  using unatSuc [of c] by (simp add: add.commute)

lemma unat_max: "unat (0 - 1 :: size_t) = 2 ^ 64 - 1"
  by (simp add: unsigned_minus_1_eq_mask mask_eq_exp_minus_1)

lemma block_run_phases:
  assumes lv: "leaves_block user b" and b: "0 < b"
  shows "block_run user b s xs = Inr t \<Longrightarrow> retains_guarded user b s xs \<Longrightarrow> length xs < 2 ^ 64 \<Longrightarrow>
    (destroyed (trace s) b = d \<and>
       (\<exists>cb. heap s b = Some cb \<and> counter cb \<noteq> 0 \<and> unat (counter cb) + length xs < 2 ^ 64)) \<or>
    (destroyed (trace s) b = Suc d \<and>
       (\<forall>cb. heap s b = Some cb \<longrightarrow> counter cb = 0 \<or> length xs < unat (counter cb))) \<Longrightarrow>
    (destroyed (trace t) b = d \<and> (\<exists>cb. heap t b = Some cb \<and> counter cb \<noteq> 0)) \<or>
    destroyed (trace t) b = Suc d"
proof (induction xs arbitrary: s)
  case Nil
  then show ?case by auto
next
  case (Cons x xs)
  show ?case
  proof (cases "heap s b")
    case None
    then show ?thesis using Cons.prems(1) block_step_freed [OF b None] by simp
  next
    case (Some cb)
    obtain s' where s': "block_step user b x s = Inr s'"
      and h': "heap s' b =
             (case x of
                Inc_ref \<Rightarrow> Some (cb\<lparr>counter := counter cb + 1\<rparr>)
              | Dec_ref \<Rightarrow> if counter cb = 1 \<and> weak_counter cb = 0 then None
                           else Some (cb\<lparr>counter := counter cb - 1\<rparr>)
              | Inc_weak_ref \<Rightarrow> Some (cb\<lparr>weak_counter := weak_counter cb + 1\<rparr>)
              | Dec_weak_ref \<Rightarrow> if weak_counter cb = 1 \<and> counter cb = 0 then None
                                else Some (cb\<lparr>weak_counter := weak_counter cb - 1\<rparr>))"
      and d': "destroyed (trace s') b =
             destroyed (trace s) b + (if x = Dec_ref \<and> counter cb = 1 then 1 else 0)"
      using block_step_effect [OF lv b Some] by blast
    have ret: "block_run user b s' xs = Inr t" using Cons.prems(1) s' by simp
    have g: "retains_guarded user b s' xs" using Cons.prems(2) s' by simp
    have gi: "x = Inc_ref \<Longrightarrow> counter cb \<noteq> 0"
      using Cons.prems(2) Some b by (simp add: object_deleted_def load_def)
    have len: "length xs < 2 ^ 64" using Cons.prems(3) by simp
    have len': "Suc (length xs) < 2 ^ 64" using Cons.prems(3) by simp
    have "(destroyed (trace s') b = d \<and>
       (\<exists>cb. heap s' b = Some cb \<and> counter cb \<noteq> 0 \<and> unat (counter cb) + length xs < 2 ^ 64)) \<or>
      (destroyed (trace s') b = Suc d \<and>
       (\<forall>cb. heap s' b = Some cb \<longrightarrow> counter cb = 0 \<or> length xs < unat (counter cb)))"
      using Cons.prems(4)
    proof (elim disjE conjE exE)
      fix cb0
      assume d0: "destroyed (trace s) b = d" and "heap s b = Some cb0" and nz: "counter cb0 \<noteq> 0"
        and bound: "unat (counter cb0) + length (x # xs) < 2 ^ 64"
      then have [simp]: "cb0 = cb" using Some by simp
      show ?thesis
      proof (cases x)
        case Inc_ref
        have "unat (counter cb + 1) = Suc (unat (counter cb))"
          using bound by (intro unat_inc) simp
        moreover from this have "counter cb + 1 \<noteq> 0" by (auto simp: unat_eq_0 [symmetric] simp del: unat_eq_0)
        ultimately show ?thesis using Inc_ref h' d' d0 bound by auto
      next
        case Dec_ref
        show ?thesis
        proof (cases "counter cb = 1")
          case True
          then show ?thesis using Dec_ref h' d' d0 by auto
        next
          case False
          have "unat (counter cb - 1) = unat (counter cb) - 1" using nz by (simp add: unat_dec)
          moreover have "counter cb - 1 \<noteq> 0" using False by simp
          ultimately show ?thesis using Dec_ref False h' d' d0 bound by auto
        qed
      next
        case Inc_weak_ref
        then show ?thesis using h' d' d0 bound nz by auto
      next
        case Dec_weak_ref
        then show ?thesis using h' d' d0 bound nz by auto
      qed
    next
      assume d0: "destroyed (trace s) b = Suc d"
        and ph: "\<forall>cb. heap s b = Some cb \<longrightarrow> counter cb = 0 \<or> length (x # xs) < unat (counter cb)"
      then have c: "counter cb = 0 \<or> Suc (length xs) < unat (counter cb)" using Some by simp
      show ?thesis
      proof (cases x)
        case Inc_ref
        then have big: "Suc (length xs) < unat (counter cb)" using c gi by simp
        have "counter cb + 1 = 0 \<or> length xs < unat (counter cb + 1)"
        proof (cases "counter cb + 1 = 0")
          case False
          then show ?thesis using big by (simp add: unat_inc_nonzero)
        qed simp
        then show ?thesis using Inc_ref h' d' d0 by auto
      next
        case Dec_ref
        have ne: "counter cb \<noteq> 1" using c by auto
        have "length xs < unat (counter cb - 1)"
        proof (cases "counter cb = 0")
          case True
          then show ?thesis using len' unat_max by simp
        next
          case False
          then show ?thesis using c by (simp add: unat_dec)
        qed
        then show ?thesis using Dec_ref ne h' d' d0 by auto
      next
        case Inc_weak_ref
        then show ?thesis using h' d' d0 c by auto
      next
        case Dec_weak_ref
        then show ?thesis using h' d' d0 c by auto
      qed
    qed
    then show ?thesis by (rule Cons.IH [OF ret g len])
  qed
qed


section \<open>Single operations\<close>

text \<open>
  C5. Constructing a strong pointer from a raw address with a deleter: when the
  allocation of the control block fails, the deleter is invoked on the raw address
  exactly once; the constructor is \<^verbatim>\<open>noexcept\<close>, so the rethrown failure does not reach
  the caller but ends in \<^verbatim>\<open>std::terminate\<close>: no exception ever leaves this constructor,
  whatever the deleter does. On success the deleter is not invoked, the new block has
  strong count 1 and weak count 0 and stores the raw address, and the pointer stores the
  raw address converted to its own type.
\<close>

theorem shared_ptr_raw_alloc_failure:
  "shared_ptr_raw quiet off p d False s = Inl (Terminate (emit [Deleter_call d p] s)) \<and>
   trace (emit [Deleter_call d p] s) = trace s @ [Deleter_call d p] \<and>
   shared_ptr_raw user off p d ok s \<noteq> Inl (Throw t) \<and>
   shared_ptr_raw user off p d True s =
     Inr (\<lparr>block = next_block s, ptr = static_cast off p\<rparr>,
          s\<lparr>heap := (heap s)(next_block s \<mapsto>
                \<lparr>counter = 1, weak_counter = 0, kind = Regular_control_block p d\<rparr>),
            next_block := Suc (next_block s)\<rparr>)"
proof -
  have "noexcept r \<noteq> Inl (Throw t)" for r :: "(shared_ptr \<times> state) result"
    by (simp add: noexcept_def split: sum.splits failure.splits)
  then have "shared_ptr_raw user off p d ok s \<noteq> Inl (Throw t)"
    by (simp add: shared_ptr_raw_def)
  then show ?thesis by (simp add: shared_ptr_raw_def new_block_def emit_def)
qed

text \<open>
  C7. Copy self-assignment of a strong pointer and of a weak pointer returns at the
  address comparison: the whole state (stored block and address, both counters, the
  heap and the trace) is unchanged.
\<close>

theorem copy_self_assignment_noop:
  "shared_ptr_copy_assign user p p s = Inr s \<and> step user (Copy_assign p p) s = Inr s \<and>
   weak_ptr_copy_assign w w s = Inr s \<and> step user (Weak_copy_assign w w) s = Inr s"
  by (simp add: shared_ptr_copy_assign_def weak_ptr_copy_assign_def)

text \<open>
  C8. Two strong pointers compare equal exactly when their stored addresses are equal,
  whatever their control blocks: equal addresses over distinct blocks compare equal,
  different addresses over one block compare unequal; a default-constructed strong
  pointer compares equal to \<^verbatim>\<open>nullptr\<close>, from either side.
\<close>

theorem eq_compares_stored_addresses:
  "(eq a b \<longleftrightarrow> get a = get b) \<and> (neq a b \<longleftrightarrow> \<not> eq a b) \<and>
   (block a \<noteq> block b \<and> ptr a = ptr b \<longrightarrow> eq a b) \<and>
   (block a = block b \<and> ptr a \<noteq> ptr b \<longrightarrow> \<not> eq a b) \<and>
   eq_nullptr shared_ptr_default \<and> nullptr_eq shared_ptr_default \<and>
   (eq_nullptr a \<longleftrightarrow> get a = 0) \<and> (nullptr_eq a \<longleftrightarrow> get a = 0)"
  by (simp add: eq_def neq_def get_def eq_nullptr_def nullptr_eq_def shared_ptr_default_def)

theorem eq_compares_stored_addresses_witness:
  "eq \<lparr>block = 1, ptr = 5\<rparr> \<lparr>block = 2, ptr = 5\<rparr> \<and>
   \<not> eq \<lparr>block = 1, ptr = 5\<rparr> \<lparr>block = 1, ptr = 6\<rparr>"
  using eq_compares_stored_addresses [where a = "\<lparr>block = 1, ptr = 5\<rparr>" and b = "\<lparr>block = 2, ptr = 5\<rparr>"]
    eq_compares_stored_addresses [where a = "\<lparr>block = 1, ptr = 5\<rparr>" and b = "\<lparr>block = 1, ptr = 6\<rparr>"]
  by (simp add: get_def)

text \<open>
  C9. The aliasing constructor calls \<^verbatim>\<open>inc_ref\<close> on the block of its source without a
  null test: from a source with a null block (a default-constructed strong pointer is
  one) it dereferences null, where the copy constructor returns a null copy and leaves
  the state alone; from a source with a live block it shares the block, stores the given
  address and adds one to the strong count.
\<close>

theorem shared_ptr_alias_no_null_guard:
  "(block r = 0 \<longrightarrow>
      shared_ptr_alias r p s = Inl Undefined \<and> shared_ptr_copy r s = Inr (r, s)) \<and>
   shared_ptr_alias shared_ptr_default p s = Inl Undefined \<and>
   (block r \<noteq> 0 \<and> heap s (block r) = Some cb \<longrightarrow>
      shared_ptr_alias r p s =
        Inr (\<lparr>block = block r, ptr = p\<rparr>, store (block r) (cb\<lparr>counter := counter cb + 1\<rparr>) s))"
  by (simp add: shared_ptr_alias_def shared_ptr_copy_def shared_ptr_default_def inc_ref_live)

theorem shared_ptr_alias_no_null_guard_witness:
  "shared_ptr_alias \<lparr>block = 0, ptr = 0\<rparr> 5 init = Inl Undefined \<and>
   shared_ptr_copy \<lparr>block = 0, ptr = 0\<rparr> init = Inr (\<lparr>block = 0, ptr = 0\<rparr>, init) \<and>
   shared_ptr_alias \<lparr>block = 1, ptr = 1\<rparr> 5
       (init\<lparr>heap := [1 \<mapsto> \<lparr>counter = 1, weak_counter = 0, kind = Inplace_control_block\<rparr>]\<rparr>) =
     Inr (\<lparr>block = 1, ptr = 5\<rparr>,
          store 1 \<lparr>counter = 2, weak_counter = 0, kind = Inplace_control_block\<rparr>
            (init\<lparr>heap := [1 \<mapsto> \<lparr>counter = 1, weak_counter = 0, kind = Inplace_control_block\<rparr>]\<rparr>))"
  using shared_ptr_alias_no_null_guard [where r = "\<lparr>block = 0, ptr = 0\<rparr>" and p = 5 and s = init]
    shared_ptr_alias_no_null_guard [where r = "\<lparr>block = 1, ptr = 1\<rparr>" and p = 5
      and s = "init\<lparr>heap := [1 \<mapsto> \<lparr>counter = 1, weak_counter = 0, kind = Inplace_control_block\<rparr>]\<rparr>"
      and cb = "\<lparr>counter = 1, weak_counter = 0, kind = Inplace_control_block\<rparr>"]
  by simp

text \<open>
  C10. Move self-assignment of a live strong pointer and of a live weak pointer leaves
  the whole state as it was: the temporary takes the two fields, the swap gives them
  back, and the temporary dies null.
\<close>

theorem move_self_assignment_unchanged:
  "(strong s p \<noteq> None \<longrightarrow>
      shared_ptr_move_assign user p p s = Inr s \<and> step user (Move_assign p p) s = Inr s) \<and>
   (weak s w \<noteq> None \<longrightarrow>
      weak_ptr_move_assign w w s = Inr s \<and> step user (Weak_move_assign w w) s = Inr s)"
  by (auto simp: shared_ptr_move_assign_def shared_ptr_move_def swap_into_def
      shared_ptr_dtor_def weak_ptr_move_assign_def weak_ptr_move_def swap_into_w_def
      weak_ptr_dtor_def strong_write_back weak_write_back)

theorem move_self_assignment_unchanged_witness:
  "shared_ptr_move_assign quiet 0 0
     \<lparr>heap = [1 \<mapsto> \<lparr>counter = 1, weak_counter = 1, kind = Inplace_control_block\<rparr>],
      next_block = 2, trace = [], strong = [0 \<mapsto> \<lparr>block = 1, ptr = 1\<rparr>],
      weak = [5 \<mapsto> \<lparr>block_w = 1, ptr_w = 1\<rparr>]\<rparr> =
   Inr \<lparr>heap = [1 \<mapsto> \<lparr>counter = 1, weak_counter = 1, kind = Inplace_control_block\<rparr>],
        next_block = 2, trace = [], strong = [0 \<mapsto> \<lparr>block = 1, ptr = 1\<rparr>],
        weak = [5 \<mapsto> \<lparr>block_w = 1, ptr_w = 1\<rparr>]\<rparr> \<and>
   weak_ptr_move_assign 5 5
     \<lparr>heap = [1 \<mapsto> \<lparr>counter = 1, weak_counter = 1, kind = Inplace_control_block\<rparr>],
      next_block = 2, trace = [], strong = [0 \<mapsto> \<lparr>block = 1, ptr = 1\<rparr>],
      weak = [5 \<mapsto> \<lparr>block_w = 1, ptr_w = 1\<rparr>]\<rparr> =
   Inr \<lparr>heap = [1 \<mapsto> \<lparr>counter = 1, weak_counter = 1, kind = Inplace_control_block\<rparr>],
        next_block = 2, trace = [], strong = [0 \<mapsto> \<lparr>block = 1, ptr = 1\<rparr>],
        weak = [5 \<mapsto> \<lparr>block_w = 1, ptr_w = 1\<rparr>]\<rparr>"
  using move_self_assignment_unchanged
    [where s = "\<lparr>heap = [1 \<mapsto> \<lparr>counter = 1, weak_counter = 1, kind = Inplace_control_block\<rparr>],
        next_block = 2, trace = [], strong = [0 \<mapsto> \<lparr>block = 1, ptr = 1\<rparr>],
        weak = [5 \<mapsto> \<lparr>block_w = 1, ptr_w = 1\<rparr>]\<rparr>"
      and p = 0 and w = 5 and user = quiet]
  by simp

section \<open>Programs\<close>

text \<open>
  C1. The strong count read back through \<^verbatim>\<open>use_count()\<close> is not the number of live
  strong pointers for every program: \<^verbatim>\<open>get_strong_count()\<close> returns the \<^verbatim>\<open>size_t\<close>
  counter as \<^verbatim>\<open>int\<close>. After one \<^verbatim>\<open>make_shared\<close> and \<open>2^31 - 1\<close> copy constructions
  there are \<open>2^31\<close> live strong pointers on the block, the counter is \<open>2^31\<close>, and
  \<^verbatim>\<open>use_count()\<close> returns \<open>2^64 - 2^31\<close>. (Below \<open>2^31\<close> owners the two agree:
  \<open>use_count_exact\<close>.) User code is quiet here.
\<close>

theorem use_count_narrowed_to_int:
  "\<exists>s. run quiet init (Make_shared 0 True # map (\<lambda>v. Copy_ctor v 0) [1..<2 ^ 31]) = Inr s \<and>
       strong s 0 = Some \<lparr>block = 1, ptr = 1\<rparr> \<and>
       card (refs block (strong s) 1) = 2 ^ 31 \<and>
       use_count \<lparr>block = 1, ptr = 1\<rparr> s = Inr (2 ^ 64 - 2 ^ 31) \<and>
       use_count \<lparr>block = 1, ptr = 1\<rparr> s \<noteq> Inr (of_nat (card (refs block (strong s) 1)))"
proof -
  define n :: nat where "n = 2 ^ 31 - 1"
  have n: "2 ^ 31 = 1 + n" by (simp add: n_def)
  obtain s where s: "run quiet init (Make_shared 0 True # map (\<lambda>v. Copy_ctor v 0) [1..<1 + n]) = Inr s"
    "strong s 0 = Some \<lparr>block = 1, ptr = 1\<rparr>" "refs block (strong s) 1 = {..<1 + n}"
    "heap s 1 = Some \<lparr>counter = 1 + of_nat n, weak_counter = 0, kind = Inplace_control_block\<rparr>"
    using owners_after_copies [of n] by blast
  have c: "card (refs block (strong s) 1) = 2 ^ 31" unfolding s(3) n by simp
  have "(1 + of_nat n :: size_t) = 2 ^ 31" by (simp add: n_def)
  then have u: "use_count \<lparr>block = 1, ptr = 1\<rparr> s = Inr (2 ^ 64 - 2 ^ 31)"
    using s(4) by (simp add: use_count_def get_strong_count_def load_def)
  have "(2 ^ 64 - 2 ^ 31 :: size_t) \<noteq> of_nat (2 ^ 31)" by simp
  then have "use_count \<lparr>block = 1, ptr = 1\<rparr> s \<noteq> Inr (of_nat (card (refs block (strong s) 1)))"
    unfolding u c by simp
  then show ?thesis using s(1,2) c u unfolding n by blast
qed

text \<open>
  C2. The payload of a block is destroyed by \<^verbatim>\<open>dec_ref\<close> exactly when that call takes the
  strong counter from 1 to 0 (the call then records \<^verbatim>\<open>delete_object()\<close> and the invocation
  of the stored deleter on the stored address, or the run of the embedded object's
  destructor), and by none of the other three counter operations. Under every sequence
  of counter operations on a block whose strong counter is not 0, in which every
  \<^verbatim>\<open>inc_ref\<close> is called while \<^verbatim>\<open>object_deleted()\<close> is false, with user code that leaves the
  block alone, and short enough for the counter not to wrap, the payload is destroyed at
  most once, and it has been destroyed whenever the strong counter is 0 or the block is
  freed. For programs of the two pointer types with quiet user code: in every state
  such a program reaches, a block's payload has been destroyed once if the block was
  allocated and no strong pointer holds it, and never otherwise; and a statement destroys
  the payload of an allocated block exactly when it takes the block's set of strong
  owners from non-empty to empty.
\<close>

theorem payload_destroyed_once_while_retains_guarded:
  "(0 < b \<and> heap s b = Some cb \<longrightarrow>
      dec_ref quiet b s =
        Inr (if counter cb = 1
             then if weak_counter cb = 0
                  then s\<lparr>heap := (heap s)(b := None),
                         trace := trace s @ [Delete_object b, payload_event b cb, Delete_this b]\<rparr>
                  else s\<lparr>heap := (heap s)(b \<mapsto> cb\<lparr>counter := 0\<rparr>),
                         trace := trace s @ [Delete_object b, payload_event b cb]\<rparr>
             else s\<lparr>heap := (heap s)(b \<mapsto> cb\<lparr>counter := counter cb - 1\<rparr>)\<rparr>) \<and>
      (leaves_block user b \<longrightarrow>
         (\<exists>s'. dec_ref user b s = Inr s' \<and>
               destroyed (trace s') b =
                 destroyed (trace s) b + (if counter cb = 1 then 1 else 0))) \<and>
      (\<exists>s'. inc_ref b s = Inr s' \<and> trace s' = trace s) \<and>
      (\<exists>s'. inc_weak_ref b s = Inr s' \<and> trace s' = trace s) \<and>
      (\<exists>s'. dec_weak_ref b s = Inr s' \<and>
            (\<forall>c. destroyed (trace s') c = destroyed (trace s) c))) \<and>
   (leaves_block user b \<and> 0 < b \<and> heap s b = Some cb \<and> counter cb \<noteq> 0 \<and>
    unat (counter cb) + length ops < 2 ^ 64 \<and>
    retains_guarded user b s ops \<and> block_run user b s ops = Inr u \<longrightarrow>
      destroyed (trace s) b \<le> destroyed (trace u) b \<and>
      destroyed (trace u) b \<le> destroyed (trace s) b + 1 \<and>
      (heap u b = None \<or> (\<exists>cb'. heap u b = Some cb' \<and> counter cb' = 0) \<longrightarrow>
         destroyed (trace u) b = destroyed (trace s) b + 1)) \<and>
   (run quiet init xs = Inr t \<and> length xs < 2 ^ 64 \<longrightarrow>
      destroyed (trace t) c =
        (if allocated t c \<and> refs block (strong t) c = {} then 1 else 0)) \<and>
   (run quiet init xs = Inr t \<and> step quiet x t = Inr t' \<and> Suc (length xs) < 2 ^ 64 \<and> allocated t c \<longrightarrow>
      destroyed (trace t') c =
        destroyed (trace t) c +
        (if refs block (strong t) c \<noteq> {} \<and> refs block (strong t') c = {} then 1 else 0))"
proof (intro conjI impI)
  assume a: "0 < b \<and> heap s b = Some cb"
  then have b: "0 < b" and cb: "heap s b = Some cb" by simp_all
  show "dec_ref quiet b s =
        Inr (if counter cb = 1
             then if weak_counter cb = 0
                  then s\<lparr>heap := (heap s)(b := None),
                         trace := trace s @ [Delete_object b, payload_event b cb, Delete_this b]\<rparr>
                  else s\<lparr>heap := (heap s)(b \<mapsto> cb\<lparr>counter := 0\<rparr>),
                         trace := trace s @ [Delete_object b, payload_event b cb]\<rparr>
             else s\<lparr>heap := (heap s)(b \<mapsto> cb\<lparr>counter := counter cb - 1\<rparr>)\<rparr>)"
    by (rule dec_ref_live [OF b cb])
  show "\<exists>s'. dec_ref user b s = Inr s' \<and>
               destroyed (trace s') b =
                 destroyed (trace s) b + (if counter cb = 1 then 1 else 0)"
    if "leaves_block user b"
    using dec_ref_leaves [OF that b cb] by blast
  show "\<exists>s'. inc_ref b s = Inr s' \<and> trace s' = trace s"
    using b cb by (simp add: inc_ref_live store_def)
  show "\<exists>s'. inc_weak_ref b s = Inr s' \<and> trace s' = trace s"
    using b cb by (simp add: inc_weak_ref_live store_def)
  show "\<exists>s'. dec_weak_ref b s = Inr s' \<and>
            (\<forall>c. destroyed (trace s') c = destroyed (trace s) c)"
    by (simp add: dec_weak_ref_live [OF b cb])
next
  assume a: "leaves_block user b \<and> 0 < b \<and> heap s b = Some cb \<and> counter cb \<noteq> 0 \<and>
    unat (counter cb) + length ops < 2 ^ 64 \<and>
    retains_guarded user b s ops \<and> block_run user b s ops = Inr u"
  then have lv: "leaves_block user b" and b: "0 < b" and ret: "block_run user b s ops = Inr u"
    and g: "retains_guarded user b s ops" and len: "length ops < 2 ^ 64" by simp_all
  have "(destroyed (trace s) b = destroyed (trace s) b \<and>
       (\<exists>cb. heap s b = Some cb \<and> counter cb \<noteq> 0 \<and> unat (counter cb) + length ops < 2 ^ 64)) \<or>
    (destroyed (trace s) b = Suc (destroyed (trace s) b) \<and>
       (\<forall>cb. heap s b = Some cb \<longrightarrow> counter cb = 0 \<or> length ops < unat (counter cb)))"
    using a by simp
  then have ph: "(destroyed (trace u) b = destroyed (trace s) b \<and>
       (\<exists>cb. heap u b = Some cb \<and> counter cb \<noteq> 0)) \<or>
    destroyed (trace u) b = Suc (destroyed (trace s) b)"
    by (rule block_run_phases [OF lv b ret g len])
  show "destroyed (trace s) b \<le> destroyed (trace u) b" using ph by auto
  show "destroyed (trace u) b \<le> destroyed (trace s) b + 1" using ph by auto
  show "destroyed (trace u) b = destroyed (trace s) b + 1"
    if "heap u b = None \<or> (\<exists>cb'. heap u b = Some cb' \<and> counter cb' = 0)"
    using ph that by auto
next
  assume "run quiet init xs = Inr t \<and> length xs < 2 ^ 64"
  then have "consistent (length xs) t" by (simp add: run_init_consistent)
  then show "destroyed (trace t) c =
        (if allocated t c \<and> refs block (strong t) c = {} then 1 else 0)"
    by (rule consistent_summary(1))
next
  assume a: "run quiet init xs = Inr t \<and> step quiet x t = Inr t' \<and> Suc (length xs) < 2 ^ 64 \<and> allocated t c"
  then have r: "run quiet init xs = Inr t" and st: "step quiet x t = Inr t'"
    and len: "Suc (length xs) < 2 ^ 64" and alc: "allocated t c" by simp_all
  have ct: "consistent (length xs) t" using r len by (intro run_init_consistent) simp_all
  have "run quiet init (xs @ [x]) = Inr t'" using r st by (simp add: run_snoc)
  then have ct': "consistent (length (xs @ [x])) t'" using len by (intro run_init_consistent) simp_all
  have ex: "extends t t'" using st by (rule step_extends)
  have al: "allocated t' c" using extends_allocated [OF ex alc] .
  have mono: "destroyed (trace t) c \<le> destroyed (trace t') c" by (rule extends_destroyed [OF ex])
  show "destroyed (trace t') c =
        destroyed (trace t) c +
        (if refs block (strong t) c \<noteq> {} \<and> refs block (strong t') c = {} then 1 else 0)"
    using consistent_summary(1) [OF ct, of c] consistent_summary(1) [OF ct', of c] al alc mono
    by (auto split: if_splits)
qed

theorem payload_destroyed_once_while_retains_guarded_witness:
  "block_run quiet 1
     \<lparr>heap = [1 \<mapsto> \<lparr>counter = 1, weak_counter = 0, kind = Regular_control_block 100 7\<rparr>],
      next_block = 2, trace = [], strong = [0 \<mapsto> \<lparr>block = 1, ptr = 100\<rparr>], weak = Map.empty\<rparr>
     [Inc_weak_ref, Inc_ref, Dec_ref, Dec_ref] =
     Inr \<lparr>heap = [1 \<mapsto> \<lparr>counter = 0, weak_counter = 1, kind = Regular_control_block 100 7\<rparr>],
          next_block = 2, trace = [Delete_object 1, Block_deleter_call 1 7 100],
          strong = [0 \<mapsto> \<lparr>block = 1, ptr = 100\<rparr>], weak = Map.empty\<rparr> \<and>
   destroyed [Delete_object 1, Block_deleter_call 1 7 100] 1 = 1 \<and>
   run quiet init [Raw_ctor 0 0 100 7 True, Copy_ctor 1 0, Weak_from_shared 5 0, Dtor 0] =
     Inr \<lparr>heap = [1 \<mapsto> \<lparr>counter = 1, weak_counter = 1, kind = Regular_control_block 100 7\<rparr>],
          next_block = 2, trace = [], strong = [1 \<mapsto> \<lparr>block = 1, ptr = 100\<rparr>],
          weak = [5 \<mapsto> \<lparr>block_w = 1, ptr_w = 100\<rparr>]\<rparr> \<and>
   step quiet (Dtor 1)
     \<lparr>heap = [1 \<mapsto> \<lparr>counter = 1, weak_counter = 1, kind = Regular_control_block 100 7\<rparr>],
      next_block = 2, trace = [], strong = [1 \<mapsto> \<lparr>block = 1, ptr = 100\<rparr>],
      weak = [5 \<mapsto> \<lparr>block_w = 1, ptr_w = 100\<rparr>]\<rparr> =
     Inr \<lparr>heap = [1 \<mapsto> \<lparr>counter = 0, weak_counter = 1, kind = Regular_control_block 100 7\<rparr>],
          next_block = 2, trace = [Delete_object 1, Block_deleter_call 1 7 100], strong = Map.empty,
          weak = [5 \<mapsto> \<lparr>block_w = 1, ptr_w = 100\<rparr>]\<rparr> \<and>
   destroyed [Delete_object 1, Block_deleter_call 1 7 100] 1 = destroyed [] 1 + 1"
  using payload_destroyed_once_while_retains_guarded
    [where xs = "[Raw_ctor 0 0 100 7 True, Copy_ctor 1 0, Weak_from_shared 5 0, Dtor 0]"
       and t = "\<lparr>heap = [1 \<mapsto> \<lparr>counter = 1, weak_counter = 1, kind = Regular_control_block 100 7\<rparr>],
          next_block = 2, trace = [], strong = [1 \<mapsto> \<lparr>block = 1, ptr = 100\<rparr>],
          weak = [5 \<mapsto> \<lparr>block_w = 1, ptr_w = 100\<rparr>]\<rparr>"
       and x = "Dtor 1"
       and t' = "\<lparr>heap = [1 \<mapsto> \<lparr>counter = 0, weak_counter = 1, kind = Regular_control_block 100 7\<rparr>],
          next_block = 2, trace = [Delete_object 1, Block_deleter_call 1 7 100], strong = Map.empty,
          weak = [5 \<mapsto> \<lparr>block_w = 1, ptr_w = 100\<rparr>]\<rparr>"
       and c = 1 and b = 1 and user = quiet
       and s = "\<lparr>heap = [1 \<mapsto> \<lparr>counter = 1, weak_counter = 0, kind = Regular_control_block 100 7\<rparr>],
          next_block = 2, trace = [], strong = [0 \<mapsto> \<lparr>block = 1, ptr = 100\<rparr>], weak = Map.empty\<rparr>"
       and cb = "\<lparr>counter = 1, weak_counter = 0, kind = Regular_control_block 100 7\<rparr>"
       and ops = "[Inc_weak_ref, Inc_ref, Dec_ref, Dec_ref]"
       and u = "\<lparr>heap = [1 \<mapsto> \<lparr>counter = 0, weak_counter = 1, kind = Regular_control_block 100 7\<rparr>],
          next_block = 2, trace = [Delete_object 1, Block_deleter_call 1 7 100],
          strong = [0 \<mapsto> \<lparr>block = 1, ptr = 100\<rparr>], weak = Map.empty\<rparr>"]
  by (simp add: eval_defs allocated_def refs_def leaves_block_def)

text \<open>
  Without the condition on \<^verbatim>\<open>inc_ref\<close> the payload is destroyed twice: \<^verbatim>\<open>inc_ref\<close> has
  no test of its own, so on a new block that a weak pointer keeps, the calls
  \<^verbatim>\<open>dec_ref\<close>, \<^verbatim>\<open>inc_ref\<close>, \<^verbatim>\<open>dec_ref\<close> run \<^verbatim>\<open>delete_object()\<close> twice. The same happens
  through the pointer types when the destructor of the object copies the strong pointer
  that is being destroyed.
\<close>

theorem retain_after_expiry_destroys_twice:
  "new_block Inplace_control_block True init =
     Inr (1, \<lparr>heap = [1 \<mapsto> \<lparr>counter = 1, weak_counter = 0, kind = Inplace_control_block\<rparr>],
              next_block = 2, trace = [], strong = Map.empty, weak = Map.empty\<rparr>) \<and>
   block_run quiet 1
     \<lparr>heap = [1 \<mapsto> \<lparr>counter = 1, weak_counter = 0, kind = Inplace_control_block\<rparr>],
      next_block = 2, trace = [], strong = Map.empty, weak = Map.empty\<rparr>
     [Inc_weak_ref, Dec_ref, Inc_ref, Dec_ref] =
     Inr \<lparr>heap = [1 \<mapsto> \<lparr>counter = 0, weak_counter = 1, kind = Inplace_control_block\<rparr>],
          next_block = 2,
          trace = [Delete_object 1, Destructor_call 1, Delete_object 1, Destructor_call 1],
          strong = Map.empty, weak = Map.empty\<rparr> \<and>
   destroyed [Delete_object 1, Destructor_call 1, Delete_object 1, Destructor_call 1] 1 = 2 \<and>
   \<not> retains_guarded quiet 1
     \<lparr>heap = [1 \<mapsto> \<lparr>counter = 1, weak_counter = 0, kind = Inplace_control_block\<rparr>],
      next_block = 2, trace = [], strong = Map.empty, weak = Map.empty\<rparr>
     [Inc_weak_ref, Dec_ref, Inc_ref, Dec_ref] \<and>
   run (keeps_itself 1 0 9) init [Make_shared 0 True, Dtor 0, Dtor 9] =
     Inr \<lparr>heap = Map.empty, next_block = 2,
          trace = [Delete_object 1, Destructor_call 1, Delete_object 1, Destructor_call 1,
                   Delete_this 1],
          strong = Map.empty, weak = Map.empty\<rparr> \<and>
   destroyed [Delete_object 1, Destructor_call 1, Delete_object 1, Destructor_call 1,
              Delete_this 1] 1 = 2"
  by (simp add: eval_defs keeps_itself_def)

text \<open>
  C3. The block is not freed exactly once under every interleaving of strong and weak
  releases. Take an object that holds a weak pointer to itself
  (\<^verbatim>\<open>struct Node { weak_ptr<Node> self; }\<close>, \<^verbatim>\<open>auto p = make_shared<Node>(); p->self = p;\<close>)
  and destroy \<^verbatim>\<open>p\<close>. \<^verbatim>\<open>dec_ref\<close> takes the strong counter to 0 and calls
  \<^verbatim>\<open>delete_object()\<close>; the object's destructor destroys the member, whose
  \<^verbatim>\<open>dec_weak_ref\<close> takes the weak counter to 0, sees the strong counter at 0 and
  frees the block; back in \<^verbatim>\<open>dec_ref\<close>, the second test reads the counters of the
  freed block.
\<close>

theorem weak_member_released_in_destructor:
  "run (destroys_member 1 5) init [Make_shared 0 True, Weak_default 5, Weak_assign_shared 5 0] =
     Inr \<lparr>heap = [1 \<mapsto> \<lparr>counter = 1, weak_counter = 1, kind = Inplace_control_block\<rparr>],
          next_block = 2, trace = [], strong = [0 \<mapsto> \<lparr>block = 1, ptr = 1\<rparr>],
          weak = [5 \<mapsto> \<lparr>block_w = 1, ptr_w = 1\<rparr>]\<rparr> \<and>
   delete_object (destroys_member 1 5) 1
     \<lparr>heap = [1 \<mapsto> \<lparr>counter = 0, weak_counter = 1, kind = Inplace_control_block\<rparr>],
      next_block = 2, trace = [], strong = [0 \<mapsto> \<lparr>block = 1, ptr = 1\<rparr>],
      weak = [5 \<mapsto> \<lparr>block_w = 1, ptr_w = 1\<rparr>]\<rparr> =
     Inr \<lparr>heap = Map.empty, next_block = 2,
          trace = [Delete_object 1, Destructor_call 1, Delete_this 1],
          strong = [0 \<mapsto> \<lparr>block = 1, ptr = 1\<rparr>], weak = Map.empty\<rparr> \<and>
   dec_ref (destroys_member 1 5) 1
     \<lparr>heap = [1 \<mapsto> \<lparr>counter = 1, weak_counter = 1, kind = Inplace_control_block\<rparr>],
      next_block = 2, trace = [], strong = [0 \<mapsto> \<lparr>block = 1, ptr = 1\<rparr>],
      weak = [5 \<mapsto> \<lparr>block_w = 1, ptr_w = 1\<rparr>]\<rparr> = Inl Undefined \<and>
   run (destroys_member 1 5) init
     [Make_shared 0 True, Weak_default 5, Weak_assign_shared 5 0, Dtor 0] = Inl Undefined"
  by (simp add: eval_defs destroys_member_def)



text \<open>
  C6. Converting a strong pointer that holds a live block returns a strong pointer with
  the same block and the converted address after one \<^verbatim>\<open>inc_ref\<close>. In every state a
  program with quiet user code reaches, a strong pointer that is not null (it holds a
  block, or its address is not null, which there implies that it holds a block) has a
  live block with a non-zero strong counter, and the conversion adds exactly one to that
  counter; declared as a new variable, the result is one more strong owner of the block.
\<close>

theorem convert_shares_block_and_retains_once:
  "(block x \<noteq> 0 \<and> heap s (block x) = Some cb \<longrightarrow>
      shared_ptr_convert off x s =
        Inr (\<lparr>block = block x, ptr = static_cast off (ptr x)\<rparr>,
             store (block x) (cb\<lparr>counter := counter cb + 1\<rparr>) s)) \<and>
   (run quiet init xs = Inr t \<and> Suc (length xs) < 2 ^ 64 \<and> strong t v = Some y \<and>
    (block y \<noteq> 0 \<or> get y \<noteq> 0) \<longrightarrow>
      block y \<noteq> 0 \<and>
      (\<exists>cb. heap t (block y) = Some cb \<and> counter cb \<noteq> 0 \<and>
         shared_ptr_convert off y t =
           Inr (\<lparr>block = block y, ptr = static_cast off (ptr y)\<rparr>,
                store (block y) (cb\<lparr>counter := counter cb + 1\<rparr>) t) \<and>
         unat (counter cb + 1) = Suc (unat (counter cb)) \<and>
         (strong t v' = None \<longrightarrow>
            step quiet (Convert v' v off) t =
              Inr ((store (block y) (cb\<lparr>counter := counter cb + 1\<rparr>) t)
                     \<lparr>strong := (strong t)(v' \<mapsto> \<lparr>block = block y, ptr = static_cast off (ptr y)\<rparr>)\<rparr>) \<and>
            refs block ((strong t)(v' \<mapsto> \<lparr>block = block y, ptr = static_cast off (ptr y)\<rparr>)) (block y) =
              insert v' (refs block (strong t) (block y)) \<and>
            v' \<notin> refs block (strong t) (block y))))"
proof (intro conjI impI)
  show "shared_ptr_convert off x s =
        Inr (\<lparr>block = block x, ptr = static_cast off (ptr x)\<rparr>,
             store (block x) (cb\<lparr>counter := counter cb + 1\<rparr>) s)"
    if "block x \<noteq> 0 \<and> heap s (block x) = Some cb"
    using that by (simp add: shared_ptr_convert_def inc_ref_live)
  assume a: "run quiet init xs = Inr t \<and> Suc (length xs) < 2 ^ 64 \<and> strong t v = Some y \<and>
    (block y \<noteq> 0 \<or> get y \<noteq> 0)"
  then have r: "run quiet init xs = Inr t" and len: "Suc (length xs) < 2 ^ 64"
    and y: "strong t v = Some y" by simp_all
  show nz: "block y \<noteq> 0"
    using a null_together_var [OF run_init_null_together [OF r] y] by (auto simp: get_def)
  show "\<exists>cb. heap t (block y) = Some cb \<and> counter cb \<noteq> 0 \<and>
         shared_ptr_convert off y t =
           Inr (\<lparr>block = block y, ptr = static_cast off (ptr y)\<rparr>,
                store (block y) (cb\<lparr>counter := counter cb + 1\<rparr>) t) \<and>
         unat (counter cb + 1) = Suc (unat (counter cb)) \<and>
         (strong t v' = None \<longrightarrow>
            step quiet (Convert v' v off) t =
              Inr ((store (block y) (cb\<lparr>counter := counter cb + 1\<rparr>) t)
                     \<lparr>strong := (strong t)(v' \<mapsto> \<lparr>block = block y, ptr = static_cast off (ptr y)\<rparr>)\<rparr>) \<and>
            refs block ((strong t)(v' \<mapsto> \<lparr>block = block y, ptr = static_cast off (ptr y)\<rparr>)) (block y) =
              insert v' (refs block (strong t) (block y)) \<and>
            v' \<notin> refs block (strong t) (block y))"
    by (rule convert_reachable [OF r len y nz])
qed

theorem convert_shares_block_and_retains_once_witness:
  "shared_ptr_convert 8 \<lparr>block = 1, ptr = 100\<rparr>
     \<lparr>heap = [1 \<mapsto> \<lparr>counter = 1, weak_counter = 0, kind = Regular_control_block 100 7\<rparr>],
      next_block = 2, trace = [], strong = [0 \<mapsto> \<lparr>block = 1, ptr = 100\<rparr>], weak = Map.empty\<rparr> =
   Inr (\<lparr>block = 1, ptr = 108\<rparr>,
        \<lparr>heap = [1 \<mapsto> \<lparr>counter = 2, weak_counter = 0, kind = Regular_control_block 100 7\<rparr>],
         next_block = 2, trace = [], strong = [0 \<mapsto> \<lparr>block = 1, ptr = 100\<rparr>], weak = Map.empty\<rparr>)"
  using convert_shares_block_and_retains_once
    [where xs = "[Raw_ctor 0 0 100 7 True]"
       and t = "\<lparr>heap = [1 \<mapsto> \<lparr>counter = 1, weak_counter = 0, kind = Regular_control_block 100 7\<rparr>],
          next_block = 2, trace = [], strong = [0 \<mapsto> \<lparr>block = 1, ptr = 100\<rparr>], weak = Map.empty\<rparr>"
       and v = 0 and y = "\<lparr>block = 1, ptr = 100\<rparr>" and off = 8 and v' = 1
       and x = "\<lparr>block = 1, ptr = 100\<rparr>"
       and s = "\<lparr>heap = [1 \<mapsto> \<lparr>counter = 1, weak_counter = 0, kind = Regular_control_block 100 7\<rparr>],
          next_block = 2, trace = [], strong = [0 \<mapsto> \<lparr>block = 1, ptr = 100\<rparr>], weak = Map.empty\<rparr>"
       and cb = "\<lparr>counter = 1, weak_counter = 0, kind = Regular_control_block 100 7\<rparr>"]
  by (simp add: eval_defs get_def)

end
